theory Spec2Isabelle
  imports Main
begin

section \<open>Availability prober: \<open>findDownloadableRevision\<close> (index.js)\<close>

text \<open>
  Revisions are JavaScript numbers holding integers; they are modelled as \<open>int\<close>
  (no rounding above \<open>2^53\<close>). The artifact store's \<open>browserFetcher.canDownload\<close> is a
  parameter \<open>canDownload :: int \<Rightarrow> bool\<close>. JavaScript's \<open>null\<close> result is \<open>None\<close>.

  The \<open>while\<close> loop of \<open>findDownloadableRevision\<close> may run forever, so it takes fuel: one
  unit per evaluation of the loop condition. The result is a pair: the revisions handed to
  \<open>canDownload\<close>, in call order, and the outcome, \<open>None\<close> when the fuel ran out before the loop
  returned, \<open>Some r\<close> when the function returned \<open>r\<close> (\<open>Some None\<close> is the return of
  \<open>null\<close>).

  One round of the loop evaluates the two array elements left to right: \<open>--down\<close> and the
  probe of the new \<open>down\<close> when \<open>down > min\<close>, then \<open>++up\<close> and the probe of the new \<open>up\<close>
  when \<open>up < max\<close>. Both probes are started before either result is inspected.
\<close>

fun findLoop :: "nat \<Rightarrow> (int \<Rightarrow> bool) \<Rightarrow> int \<Rightarrow> int \<Rightarrow> int \<Rightarrow> int \<Rightarrow> int list \<times> int option option" where
  "findLoop 0 canDownload mn mx down up = ([], None)"
| "findLoop (Suc fuel) canDownload mn mx down up =
     (if mn \<le> down \<or> up \<le> mx then
        (let down' = (if down > mn then down - 1 else down);
             downOk = (if down > mn then canDownload down' else False);
             up' = (if up < mx then up + 1 else up);
             upOk = (if up < mx then canDownload up' else False);
             probes = (if down > mn then [down'] else []) @ (if up < mx then [up'] else [])
         in if downOk then (probes, Some (Some down'))
            else if upOk then (probes, Some (Some up'))
            else (case findLoop fuel canDownload mn mx down' up' of
                    (later, r) \<Rightarrow> (probes @ later, r)))
      else ([], Some None))"

definition findDownloadableRevision ::
  "nat \<Rightarrow> (int \<Rightarrow> bool) \<Rightarrow> int \<Rightarrow> int \<Rightarrow> int \<Rightarrow> int list \<times> int option option" where
  "findDownloadableRevision fuel canDownload revision from to =
     (let mn = min from to; mx = max from to
      in if canDownload revision then ([revision], Some (Some revision))
         else (case findLoop fuel canDownload mn mx revision revision of
                 (later, r) \<Rightarrow> (revision # later, r)))"


section \<open>Evaluators\<close>

subsection \<open>String helpers\<close>

text \<open>
  Answers typed at the prompt are modelled as ASCII strings. \<open>toLowerCase\<close> maps \<open>A\<close>..\<open>Z\<close>
  (codes 65 to 90) to \<open>a\<close>..\<open>z\<close> by setting the bit of value 32, and leaves every other
  character alone; \<open>trim\<close> strips the ASCII white space
  (tab, line feed, vertical tab, form feed, carriage return, space) from both ends.
  JavaScript's \<open>trim\<close> strips the spaces beyond ASCII as well (U+00A0, U+FEFF and the
  other Unicode spaces); a line holding one of those is outside this model.
\<close>

fun lowerChar :: "char \<Rightarrow> char" where
  "lowerChar (Char b0 b1 b2 b3 b4 b5 b6 b7) =
     (let n = (of_char (Char b0 b1 b2 b3 b4 b5 b6 b7) :: nat)
      in if 65 \<le> n \<and> n \<le> 90 then Char b0 b1 b2 b3 b4 True b6 b7
         else Char b0 b1 b2 b3 b4 b5 b6 b7)"

definition toLowerCase :: "string \<Rightarrow> string" where
  "toLowerCase s = map lowerChar s"

definition isWhiteSpace :: "char \<Rightarrow> bool" where
  "isWhiteSpace c = (let n = (of_char c :: nat) in (9 \<le> n \<and> n \<le> 13) \<or> n = 32)"

definition trim :: "string \<Rightarrow> string" where
  "trim s = rev (dropWhile isWhiteSpace (rev (dropWhile isWhiteSpace s)))"

definition startsWith :: "string \<Rightarrow> string \<Rightarrow> bool" where
  "startsWith s p = (take (length p) s = p)"

subsection \<open>The prompt of \<open>--manual\<close> mode (index.js, inside \<open>bisect\<close>)\<close>

text \<open>
  \<open>exitCode\<close> in \<open>bisect\<close> is \<open>undefined\<close> until set, a number, or \<open>null\<close> (what Node's
  \<open>exit\<close> event carries when the child was ended by a signal).
\<close>

datatype exitCode = Undefined | Null | Code int

text \<open>JavaScript truthiness of \<open>if (exitCode)\<close>: only a nonzero number is truthy.\<close>

fun truthy :: "exitCode \<Rightarrow> bool" where
  "truthy Undefined = False"
| "truthy Null = False"
| "truthy (Code c) = (c \<noteq> 0)"

text \<open>
  The inner \<open>while (exitCode === undefined)\<close> loop reads one line per round. The lines still
  to come on standard input are a list; when it is exhausted the prompt is never answered
  and the result stays \<open>Undefined\<close>. The function returns the exit code and the unread lines.
\<close>

fun manualPrompt :: "string list \<Rightarrow> exitCode \<times> string list" where
  "manualPrompt [] = (Undefined, [])"
| "manualPrompt (line # rest) =
     (let answer = toLowerCase (trim line)
      in if answer = ''g'' \<or> answer = ''good'' then (Code 0, rest)
         else if answer = ''b'' \<or> answer = ''bad'' then (Code 1, rest)
         else manualPrompt rest)"

subsection \<open>The default script's prompt: \<open>isGood\<close> and \<open>ask\<close> (default.js, \<open>unnamed/part_000\<close>)\<close>

definition goodAnswers :: "string list" where
  "goodAnswers = [''g'', ''good'', ''y'', ''yes'']"

definition badAnswers :: "string list" where
  "badAnswers = [''b'', ''bad'', ''n'', '' no'']"

text \<open>
  \<open>ask\<close> lower-cases the line read and does not trim it. \<open>isGood\<close> loops until an
  answer is in one of the two sets; \<open>None\<close>: the input is exhausted and it is still asking.
\<close>

definition ask :: "string \<Rightarrow> string" where
  "ask line = toLowerCase line"

fun isGood :: "string list \<Rightarrow> bool option \<times> string list" where
  "isGood [] = (None, [])"
| "isGood (line # rest) =
     (let answer = ask line
      in if answer \<in> set goodAnswers then (Some True, rest)
         else if answer \<in> set badAnswers then (Some False, rest)
         else isGood rest)"

subsection \<open>The scripted evaluator: \<open>runScript\<close> (index.js)\<close>

text \<open>
  What the spawned child does is the environment's part: it exits with a code, is ended by a
  signal (Node then emits \<open>exit\<close> with code \<open>null\<close>), or fails to spawn (Node emits
  \<open>error\<close>). \<open>runScript\<close> resolves with the code of \<open>exit\<close> and rejects on \<open>error\<close>.
\<close>

datatype child = Exited int | Signalled | SpawnError

datatype stop = Finished | DownloadFailed | ScriptRejected | AwaitingAnswer | OutOfFuel

fun runScript :: "child \<Rightarrow> stop + exitCode" where
  "runScript (Exited code) = Inr (Code code)"
| "runScript Signalled = Inr Null"
| "runScript SpawnError = Inl ScriptRejected"

section \<open>Bisection engine: \<open>bisect\<close> (index.js)\<close>

text \<open>
  The environment of a run: which revisions the store can download, whether the download of
  a revision not yet on disk succeeds, what the evaluation script does when run against a
  revision, and the \<open>--manual\<close> flag.
\<close>

record env =
  canDownload :: "int \<Rightarrow> bool"
  downloadOk :: "int \<Rightarrow> bool"
  script :: "int \<Rightarrow> child"
  isManual :: bool

text \<open>
  What a run does, in the order it does it: the calls of the store (\<open>canDownload\<close>,
  \<open>download\<close>, \<open>remove\<close>) and the evaluations that came back with an exit code.
\<close>

datatype event = CanDownload int | Download int | Evaluated int exitCode | Remove int

text \<open>
  The state of a run: the two bounds, the revisions present in the download directory
  (\<open>revisionInfo(r).local\<close>), the unread lines of standard input, and the events so far.
\<close>

record state =
  good :: int
  bad :: int
  localRevisions :: "int set"
  answers :: "string list"
  events :: "event list"

text \<open>
  \<open>Math.round((good + bad) / 2)\<close>: the quotient is an integer or an integer plus one half,
  and \<open>Math.round\<close> rounds a half towards plus infinity.
\<close>

definition middle :: "int \<Rightarrow> int \<Rightarrow> int" where
  "middle g b = (g + b + 1) div 2"

text \<open>
  Modelled from the spec: the store (puppeteer's \<open>BrowserFetcher\<close>, a library outside the
  repository) behaves as section 4.3 of the specification says. \<open>download\<close> returns the
  revision already on disk as it is, and otherwise fetches it, which puts it on disk or
  fails; \<open>remove\<close> deletes it from disk. \<open>downloadRevision\<close> is the wrapper of index.js;
  its result is whether \<open>info\<close> is there.
\<close>

definition downloadRevision :: "env \<Rightarrow> int \<Rightarrow> state \<Rightarrow> bool \<times> state" where
  "downloadRevision e revision st =
     (let st' = st\<lparr>events := events st @ [Download revision]\<rparr>
      in if revision \<in> localRevisions st then (True, st')
         else if downloadOk e revision
           then (True, st'\<lparr>localRevisions := insert revision (localRevisions st)\<rparr>)
           else (False, st'))"

definition remove :: "int \<Rightarrow> state \<Rightarrow> state" where
  "remove revision st =
     st\<lparr>localRevisions := localRevisions st - {revision},
        events := events st @ [Remove revision]\<rparr>"

text \<open>
  The evaluation of one revision: the prompt in manual mode, \<open>runScript\<close> otherwise. When it
  comes back with an exit code, that is recorded as an event; when it does not (the prompt is
  never answered, \<open>runScript\<close> rejects), nothing is recorded and the run stops.
\<close>

definition evaluated :: "int \<Rightarrow> exitCode \<Rightarrow> state \<Rightarrow> state" where
  "evaluated revision code st = st\<lparr>events := events st @ [Evaluated revision code]\<rparr>"

definition evaluate :: "env \<Rightarrow> int \<Rightarrow> state \<Rightarrow> (stop + exitCode) \<times> state" where
  "evaluate e revision st =
     (if isManual e then
        (case manualPrompt (answers st) of
           (Undefined, rest) \<Rightarrow> (Inl AwaitingAnswer, st\<lparr>answers := rest\<rparr>)
         | (code, rest) \<Rightarrow> (Inr code, evaluated revision code (st\<lparr>answers := rest\<rparr>)))
      else
        (case runScript (script e revision) of
           Inl err \<Rightarrow> (Inl err, st)
         | Inr code \<Rightarrow> (Inr code, evaluated revision code st)))"

text \<open>\<open>if (exitCode) bad = revision; else good = revision;\<close>\<close>

definition narrow :: "exitCode \<Rightarrow> int \<Rightarrow> state \<Rightarrow> state" where
  "narrow code revision st =
     (if truthy code then st\<lparr>bad := revision\<rparr> else st\<lparr>good := revision\<rparr>)"

text \<open>
  The body of the \<open>while (true)\<close> loop after the \<open>break\<close> test, for the candidate
  \<open>revision\<close>. The result is \<open>None\<close> when the iteration ran to its end (the loop goes
  on), and the reason when the run stops inside it: \<open>process.exit(1)\<close> after a failed
  download, a rejected \<open>runScript\<close>, or a prompt that is never answered.
\<close>

definition iteration :: "env \<Rightarrow> int \<Rightarrow> state \<Rightarrow> stop option \<times> state" where
  "iteration e revision st =
     (let shouldRemove = (revision \<notin> localRevisions st)
      in case downloadRevision e revision st of
           (False, st1) \<Rightarrow> (Some DownloadFailed, st1)
         | (True, st1) \<Rightarrow>
             (case evaluate e revision st1 of
                (Inl err, st2) \<Rightarrow> (Some err, st2)
              | (Inr code, st2) \<Rightarrow>
                  (let st3 = (if shouldRemove then remove revision st2 else st2)
                   in (None, narrow code revision st3))))"

text \<open>
  One round of the loop: the midpoint, the prober, the \<open>break\<close> test
  \<open>!revision || revision === good || revision === bad\<close> (\<open>!revision\<close> holds of \<open>null\<close> and
  of the number \<open>0\<close>), then the body. The prober receives the fuel; when it runs out inside
  the prober the round stops with \<open>OutOfFuel\<close>.
\<close>

definition bisectRound :: "nat \<Rightarrow> env \<Rightarrow> state \<Rightarrow> stop option \<times> state" where
  "bisectRound fuel e st =
     (case findDownloadableRevision fuel (canDownload e) (middle (good st) (bad st))
             (good st) (bad st) of
        (probes, found) \<Rightarrow>
          (let st0 = st\<lparr>events := events st @ map CanDownload probes\<rparr>
           in case found of
                None \<Rightarrow> (Some OutOfFuel, st0)
              | Some None \<Rightarrow> (Some Finished, st0)
              | Some (Some revision) \<Rightarrow>
                  if revision = 0 \<or> revision = good st \<or> revision = bad st
                  then (Some Finished, st0)
                  else iteration e revision st0))"

text \<open>
  The loop: one unit of fuel per round. The result is why the loop stopped and the state
  then; \<open>Finished\<close> is the \<open>break\<close>, after which \<open>bisect\<close> reports the pair
  \<open>(good, bad)\<close> of that state.
\<close>

fun bisectLoop :: "nat \<Rightarrow> env \<Rightarrow> state \<Rightarrow> stop \<times> state" where
  "bisectLoop 0 e st = (OutOfFuel, st)"
| "bisectLoop (Suc fuel) e st =
     (case bisectRound fuel e st of
        (Some reason, st') \<Rightarrow> (reason, st')
      | (None, st') \<Rightarrow> bisectLoop fuel e st')"

definition bisect :: "nat \<Rightarrow> env \<Rightarrow> int \<Rightarrow> int \<Rightarrow> int set \<Rightarrow> string list \<Rightarrow> stop \<times> state" where
  "bisect fuel e g b onDisk input =
     bisectLoop fuel e
       \<lparr>good = g, bad = b, localRevisions = onDisk, answers = input, events = []\<rparr>"

section \<open>Process lifecycle: \<open>Launcher.launch\<close> (Launcher.js, the second file in \<open>src/index.js\<close>)\<close>

datatype ignoreDefault = IgnoreBool bool | IgnoreList "string list"

record launchOptions =
  ignoreDefaultArgs :: ignoreDefault
  args :: "string list"
  userDataDir :: "string option"
  devtools :: bool
  handleSIGINT :: bool
  handleSIGTERM :: bool
  handleSIGHUP :: bool

text \<open>
  The host at the time of the launch: the platform, the temporary directory of the system,
  the six characters \<open>mkdtemp\<close> appends, and the pid of the spawned child (\<open>None\<close>: the child
  did not start, \<open>chromeProcess.pid\<close> is \<open>undefined\<close>).
\<close>

record host =
  win32 :: bool
  tmpdir :: string
  mkdtempSuffix :: string
  spawnedPid :: "nat option"

datatype killCommand = Taskkill nat | KillGroup nat

datatype launcherError = NoSuchProcess | MissingPath

text \<open>
  What \<open>launch\<close> closes over (\<open>chromeArguments\<close>, \<open>temporaryUserDataDir\<close>, the child's
  \<open>pid\<close> and \<open>killed\<close> fields, \<open>chromeClosed\<close>, \<open>listeners\<close>) together with the part of the
  system it acts on: whether the child's process group is alive, the directories that
  exist, the kill commands issued and the directories removed, both in order.

  \<open>chromeProcess.killed\<close> is set by Node only in \<open>chromeProcess.kill()\<close>, which the launcher
  never calls (it signals the group with \<open>process.kill(-pid)\<close> or runs \<open>taskkill\<close>), so no
  operation below writes it.
\<close>

record chrome =
  chromeArguments :: "string list"
  temporaryUserDataDir :: "string option"
  pid :: "nat option"
  killed :: bool
  chromeClosed :: bool
  listeners :: "string list"
  onWin32 :: bool
  alive :: bool
  dirs :: "string set"
  kills :: "killCommand list"
  removals :: "string list"

text \<open>Truthiness of a value that is a string, \<open>null\<close> or \<open>undefined\<close>, and of a pid.\<close>

fun truthyString :: "string option \<Rightarrow> bool" where
  "truthyString None = False"
| "truthyString (Some s) = (s \<noteq> [])"

fun truthyPid :: "nat option \<Rightarrow> bool" where
  "truthyPid None = False"
| "truthyPid (Some n) = (n \<noteq> 0)"

definition defaultArgs :: "launchOptions \<Rightarrow> string list" where
  "defaultArgs options =
     (if truthyString (userDataDir options)
        then [''--user-data-dir='' @ the (userDataDir options)] else [])
     @ (if devtools options then [''--auto-open-devtools-for-tabs''] else [])
     @ (if list_all (\<lambda>arg. startsWith arg ''-'') (args options) then [''about:blank''] else [])
     @ args options"

text \<open>The three branches on \<open>ignoreDefaultArgs\<close>: falsy, an array (truthy), \<open>true\<close>.\<close>

fun initialArguments :: "launchOptions \<Rightarrow> string list" where
  "initialArguments options =
     (case ignoreDefaultArgs options of
        IgnoreBool False \<Rightarrow> defaultArgs options
      | IgnoreList ignored \<Rightarrow> filter (\<lambda>arg. arg \<notin> set ignored) (defaultArgs options)
      | IgnoreBool True \<Rightarrow> args options)"

definition CHROME_PROFILE_PATH :: "host \<Rightarrow> string" where
  "CHROME_PROFILE_PATH h = tmpdir h @ ''/chrome_bisect_dev_profile-''"

text \<open>
  \<open>launch\<close>, for a launch in which \<open>mkdtemp\<close> and \<open>spawn\<close> return: the arguments, the
  temporary profile when no argument names one, the child, and the listeners registered on
  the host process. The directories that exist beforehand are a parameter.
\<close>

definition launch :: "launchOptions \<Rightarrow> host \<Rightarrow> string set \<Rightarrow> chrome" where
  "launch options h existing =
     (let arguments = initialArguments options;
          needsProfile = (\<not> list_ex (\<lambda>arg. startsWith arg ''--user-data-dir'') arguments);
          created = CHROME_PROFILE_PATH h @ mkdtempSuffix h
      in \<lparr>chromeArguments =
            (if needsProfile then arguments @ [''--user-data-dir='' @ created] else arguments),
          temporaryUserDataDir = (if needsProfile then Some created else None),
          pid = spawnedPid h,
          killed = False,
          chromeClosed = False,
          listeners = [''exit'']
            @ (if handleSIGINT options then [''SIGINT''] else [])
            @ (if handleSIGTERM options then [''SIGTERM''] else [])
            @ (if handleSIGHUP options then [''SIGHUP''] else []),
          onWin32 = win32 h,
          alive = (spawnedPid h \<noteq> None),
          dirs = (if needsProfile then insert created existing else existing),
          kills = [],
          removals = []\<rparr>)"

text \<open>
  A statement either completes or throws; the state it leaves is there in both cases.
  \<open>andThen\<close> is sequencing (a throw skips the rest), \<open>tryCatch\<close> is
  \<open>try { ... } catch (e) { }\<close> with its empty handler.
\<close>

type_synonym outcome = "launcherError option \<times> chrome"

fun andThen :: "outcome \<Rightarrow> (chrome \<Rightarrow> outcome) \<Rightarrow> outcome" where
  "andThen (None, c) next = next c"
| "andThen (Some err, c) next = (Some err, c)"

fun tryCatch :: "outcome \<Rightarrow> outcome" where
  "tryCatch (thrown, c) = (None, c)"

text \<open>
  The forced kill: \<open>taskkill\<close> on Windows, \<open>process.kill(-pid, 'SIGKILL')\<close> elsewhere. It
  throws when the process is gone.
\<close>

definition forceKill :: "chrome \<Rightarrow> outcome" where
  "forceKill c =
     (let command = (if onWin32 c then Taskkill (the (pid c)) else KillGroup (the (pid c)));
          c' = c\<lparr>kills := kills c @ [command]\<rparr>
      in if alive c then (None, c'\<lparr>alive := False\<rparr>) else (Some NoSuchProcess, c'))"

text \<open>\<open>rimraf.sync\<close>: asserts that the path is a non-empty string, then removes it.\<close>

definition removeFolderSync :: "string option \<Rightarrow> chrome \<Rightarrow> outcome" where
  "removeFolderSync path c =
     (if truthyString path
        then (None, c\<lparr>dirs := dirs c - {the path}, removals := removals c @ [the path]\<rparr>)
        else (Some MissingPath, c))"

definition removeEventListeners :: "chrome \<Rightarrow> outcome" where
  "removeEventListeners c = (None, c\<lparr>listeners := []\<rparr>)"

definition killChrome :: "chrome \<Rightarrow> outcome" where
  "killChrome c =
     andThen (removeEventListeners c) (\<lambda>c1.
     andThen (if truthyPid (pid c1) \<and> \<not> killed c1 \<and> \<not> chromeClosed c1
                then tryCatch (forceKill c1) else (None, c1)) (\<lambda>c2.
     tryCatch (removeFolderSync (temporaryUserDataDir c2) c2)))"

text \<open>
  \<open>gracefullyCloseChrome\<close>, the \<open>close\<close> that \<open>launch\<close> returns: \<open>killChrome\<close>, then the
  promise \<open>waitForChromeToClose\<close> is handed back (settled by the \<open>exit\<close> handler below).
\<close>

definition gracefullyCloseChrome :: "chrome \<Rightarrow> outcome" where
  "gracefullyCloseChrome c = killChrome c"

text \<open>
  The handler of the child's \<open>exit\<close> event, which Node delivers in a later turn of the
  event loop than the kill: it sets \<open>chromeClosed\<close> and removes the temporary profile.
\<close>

definition onExit :: "chrome \<Rightarrow> outcome" where
  "onExit c =
     (let c' = c\<lparr>chromeClosed := True, alive := False\<rparr>
      in if truthyString (temporaryUserDataDir c')
           then (None, c'\<lparr>dirs := dirs c' - {the (temporaryUserDataDir c')},
                          removals := removals c' @ [the (temporaryUserDataDir c')]\<rparr>)
           else (None, c'))"

text \<open>What happens to a launched process, in order: calls of \<open>close\<close> and the \<open>exit\<close> event.\<close>

datatype action = Close | ExitEvent

fun perform :: "action \<Rightarrow> chrome \<Rightarrow> outcome" where
  "perform Close c = gracefullyCloseChrome c"
| "perform ExitEvent c = onExit c"

fun performAll :: "action list \<Rightarrow> chrome \<Rightarrow> outcome" where
  "performAll [] c = (None, c)"
| "performAll (a # rest) c = andThen (perform a c) (performAll rest)"

section \<open>Properties of the prober\<close>

text \<open>
  The loop condition \<open>min <= down || up <= max\<close> stays true once it is true: \<open>down\<close> is only
  decremented while it is above \<open>min\<close> and \<open>up\<close> only incremented while it is below \<open>max\<close>.
  So the \<open>return null\<close> after the loop is never reached.
\<close>

lemma findLoop_never_null:
  "mn \<le> down \<or> up \<le> mx \<Longrightarrow> snd (findLoop fuel can mn mx down up) \<noteq> Some None"
proof (induction fuel arbitrary: down up)
  case 0
  then show ?case by simp
next
  case (Suc fuel)
  let ?d = "if down > mn then down - 1 else down"
  let ?u = "if up < mx then up + 1 else up"
  have "mn \<le> ?d \<or> ?u \<le> mx" using Suc.prems by auto
  then have "snd (findLoop fuel can mn mx ?d ?u) \<noteq> Some None" by (rule Suc.IH)
  then show ?case using Suc.prems by (auto simp add: Let_def split_def split: if_splits)
qed

lemma findDownloadableRevision_never_null:
  "snd (findDownloadableRevision fuel can revision from to) \<noteq> Some None"
proof -
  have "min from to \<le> revision \<or> revision \<le> max from to" by auto
  then have "snd (findLoop fuel can (min from to) (max from to) revision revision) \<noteq> Some None"
    by (rule findLoop_never_null)
  then show ?thesis by (simp add: findDownloadableRevision_def Let_def split_def)
qed

text \<open>With nothing to download between the bounds, no amount of fuel lets the loop return.\<close>

lemma findLoop_stuck:
  "mn \<le> down \<or> up \<le> mx \<Longrightarrow> down \<le> mx \<Longrightarrow> mn \<le> up \<Longrightarrow>
   \<forall>r. mn \<le> r \<and> r \<le> mx \<longrightarrow> \<not> can r \<Longrightarrow>
   snd (findLoop fuel can mn mx down up) = None"
proof (induction fuel arbitrary: down up)
  case 0
  then show ?case by simp
next
  case (Suc fuel)
  let ?d = "if down > mn then down - 1 else down"
  let ?u = "if up < mx then up + 1 else up"
  have "mn \<le> ?d \<or> ?u \<le> mx" "?d \<le> mx" "mn \<le> ?u" using Suc.prems by auto
  then have "snd (findLoop fuel can mn mx ?d ?u) = None" using Suc.prems(4) by (rule Suc.IH)
  then show ?case using Suc.prems by (auto simp add: Let_def split_def split: if_splits)
qed

lemma findDownloadableRevision_stuck:
  assumes "min from to \<le> revision" "revision \<le> max from to"
    and "\<forall>r. min from to \<le> r \<and> r \<le> max from to \<longrightarrow> \<not> can r"
  shows "snd (findDownloadableRevision fuel can revision from to) = None"
proof -
  have "\<not> can revision" using assms by blast
  moreover have "snd (findLoop fuel can (min from to) (max from to) revision revision) = None"
    using assms by (intro findLoop_stuck) auto
  ultimately show ?thesis by (simp add: findDownloadableRevision_def Let_def split_def)
qed

text \<open>Probes and results stay between the bounds when the two fronts start between them.\<close>

lemma findLoop_within:
  "down \<le> mx \<Longrightarrow> mn \<le> up \<Longrightarrow>
   (\<forall>p \<in> set (fst (findLoop fuel can mn mx down up)). mn \<le> p \<and> p \<le> mx) \<and>
   (\<forall>r. snd (findLoop fuel can mn mx down up) = Some (Some r) \<longrightarrow> mn \<le> r \<and> r \<le> mx)"
proof (induction fuel arbitrary: down up)
  case 0
  then show ?case by simp
next
  case (Suc fuel)
  let ?d = "if down > mn then down - 1 else down"
  let ?u = "if up < mx then up + 1 else up"
  have "?d \<le> mx" "mn \<le> ?u" using Suc.prems by auto
  then have IH: "(\<forall>p \<in> set (fst (findLoop fuel can mn mx ?d ?u)). mn \<le> p \<and> p \<le> mx) \<and>
   (\<forall>r. snd (findLoop fuel can mn mx ?d ?u) = Some (Some r) \<longrightarrow> mn \<le> r \<and> r \<le> mx)"
    by (rule Suc.IH)
  show ?case
  proof (cases "mn < down")
    case d: True
    show ?thesis
    proof (cases "up < mx")
      case u: True
      show ?thesis using IH d u Suc.prems by (simp add: Let_def split_def)
    next
      case u: False
      show ?thesis using IH d u Suc.prems by (simp add: Let_def split_def)
    qed
  next
    case d: False
    show ?thesis
    proof (cases "up < mx")
      case u: True
      show ?thesis using IH d u Suc.prems by (simp add: Let_def split_def)
    next
      case u: False
      show ?thesis using IH d u Suc.prems by (simp add: Let_def split_def)
    qed
  qed
qed

lemma findDownloadableRevision_within:
  assumes "min from to \<le> revision" "revision \<le> max from to"
  shows "(\<forall>p \<in> set (fst (findDownloadableRevision fuel can revision from to)).
            min from to \<le> p \<and> p \<le> max from to) \<and>
         (\<forall>r. snd (findDownloadableRevision fuel can revision from to) = Some (Some r) \<longrightarrow>
            min from to \<le> r \<and> r \<le> max from to)"
proof -
  have L: "(\<forall>p \<in> set (fst (findLoop fuel can (min from to) (max from to) revision revision)).
              min from to \<le> p \<and> p \<le> max from to) \<and>
        (\<forall>r. snd (findLoop fuel can (min from to) (max from to) revision revision) = Some (Some r)
              \<longrightarrow> min from to \<le> r \<and> r \<le> max from to)"
    using assms by (intro findLoop_within)
  show ?thesis
  proof (cases "can revision")
    case True
    then show ?thesis using assms by (simp add: findDownloadableRevision_def Let_def)
  next
    case False
    then show ?thesis using assms L by (simp add: findDownloadableRevision_def Let_def split_def)
  qed
qed

section \<open>Properties of one iteration\<close>

lemma middle_within: "min g b \<le> middle g b \<and> middle g b \<le> max g b"
  unfolding middle_def min_def max_def by (simp; linarith)

lemma downloadRevision_frame:
  "downloadRevision e revision st = (ok, st1) \<Longrightarrow>
     good st1 = good st \<and> bad st1 = bad st \<and> answers st1 = answers st \<and>
     events st1 = events st @ [Download revision] \<and>
     localRevisions st1 = (if ok then insert revision (localRevisions st) else localRevisions st) \<and>
     (ok \<longleftrightarrow> revision \<in> localRevisions st \<or> downloadOk e revision)"
  by (auto simp: downloadRevision_def Let_def split: if_splits)

lemma evaluate_frame:
  "evaluate e revision st1 = (res, st2) \<Longrightarrow>
     good st2 = good st1 \<and> bad st2 = bad st1 \<and>
     events st2 = events st1 @ (case res of Inl err \<Rightarrow> [] | Inr code \<Rightarrow> [Evaluated revision code]) \<and>
     localRevisions st2 = localRevisions st1"
  by (auto simp: evaluate_def evaluated_def split: if_splits prod.splits exitCode.splits sum.splits)

lemma evaluate_answers_only:
  "answers st1 = answers st \<Longrightarrow> fst (evaluate e revision st1) = fst (evaluate e revision st)"
  by (simp add: evaluate_def split: prod.splits exitCode.splits sum.splits)

lemma iteration_unfold:
  assumes "downloadRevision e revision st = (True, st1)"
    and "evaluate e revision st1 = (Inr code, st2)"
  shows "iteration e revision st =
           (None, narrow code revision
                    (if revision \<notin> localRevisions st then remove revision st2 else st2))"
  using assms by (simp add: iteration_def Let_def)

lemma iteration_cases:
  obtains (download) st1 where "downloadRevision e revision st = (False, st1)"
      "iteration e revision st = (Some DownloadFailed, st1)"
  | (stopped) st1 err st2 where "downloadRevision e revision st = (True, st1)"
      "evaluate e revision st1 = (Inl err, st2)" "iteration e revision st = (Some err, st2)"
  | (completed) st1 code st2 where "downloadRevision e revision st = (True, st1)"
      "evaluate e revision st1 = (Inr code, st2)"
      "iteration e revision st =
           (None, narrow code revision
                    (if revision \<notin> localRevisions st then remove revision st2 else st2))"
proof -
  obtain ok st1 where d: "downloadRevision e revision st = (ok, st1)" by (cases "downloadRevision e revision st")
  obtain res st2 where ev: "evaluate e revision st1 = (res, st2)" by (cases "evaluate e revision st1")
  show thesis
  proof (cases ok)
    case False
    then show ?thesis using d download by (simp add: iteration_def Let_def)
  next
    case True
    show ?thesis
    proof (cases res)
      case (Inl err)
      then show ?thesis using d ev True stopped by (simp add: iteration_def Let_def)
    next
      case (Inr code)
      then show ?thesis using d ev True completed iteration_unfold by simp
    qed
  qed
qed


lemma iteration_completed:
  assumes "iteration e r st = (None, st')"
  shows "((good st' = r \<and> bad st' = bad st) \<or> (bad st' = r \<and> good st' = good st)) \<and>
         (\<exists>code. fst (evaluate e r st) = Inr code \<and>
            events st' = events st @ [Download r, Evaluated r code]
              @ (if r \<in> localRevisions st then [] else [Remove r])) \<and>
         localRevisions st' = localRevisions st"
proof (cases rule: iteration_cases [of e r st])
  case (download st1)
  then show ?thesis using assms by simp
next
  case (stopped st1 err st2)
  then show ?thesis using assms by simp
next
  case (completed st1 code st2)
  have f1: "good st1 = good st" "bad st1 = bad st" "answers st1 = answers st"
     "events st1 = events st @ [Download r]"
     "localRevisions st1 = insert r (localRevisions st)"
    using downloadRevision_frame [OF completed(1)] by simp_all
  have f2: "good st2 = good st1" "bad st2 = bad st1"
     "events st2 = events st1 @ [Evaluated r code]"
     "localRevisions st2 = localRevisions st1"
    using evaluate_frame [OF completed(2)] by simp_all
  have "fst (evaluate e r st1) = fst (evaluate e r st)"
    using f1(3) by (rule evaluate_answers_only)
  then have code: "fst (evaluate e r st) = Inr code" using completed(2) by simp
  have st': "st' = narrow code r (if r \<notin> localRevisions st then remove r st2 else st2)"
    using assms completed(3) by simp
  have rest: "((good st' = r \<and> bad st' = bad st) \<or> (bad st' = r \<and> good st' = good st)) \<and>
      events st' = events st @ [Download r, Evaluated r code]
              @ (if r \<in> localRevisions st then [] else [Remove r]) \<and>
      localRevisions st' = localRevisions st"
  proof (cases "r \<in> localRevisions st")
    case True
    then show ?thesis using f1 f2 st' by (auto simp: narrow_def)
  next
    case False
    then show ?thesis using f1 f2 st' by (auto simp: narrow_def remove_def)
  qed
  then show ?thesis using code by blast
qed

lemma iteration_stopped:
  assumes "iteration e r st = (Some reason, st')"
  shows "events st' = events st @ [Download r] \<and>
         localRevisions st' =
           (if downloadOk e r then insert r (localRevisions st) else localRevisions st)"
proof (cases rule: iteration_cases [of e r st])
  case (download st1)
  have f1: "events st1 = events st @ [Download r]" "localRevisions st1 = localRevisions st"
    "\<not> downloadOk e r"
    using downloadRevision_frame [OF download(1)] by simp_all
  have "st' = st1" using assms download(2) by simp
  then show ?thesis using f1 by simp
next
  case (stopped st1 err st2)
  have f1: "events st1 = events st @ [Download r]"
    "localRevisions st1 = insert r (localRevisions st)"
    "r \<in> localRevisions st \<or> downloadOk e r"
    using downloadRevision_frame [OF stopped(1)] by simp_all
  have f2: "events st2 = events st1" "localRevisions st2 = localRevisions st1"
    using evaluate_frame [OF stopped(2)] by simp_all
  have "st' = st2" using assms stopped(3) by simp
  then show ?thesis using f1 f2 by auto
next
  case (completed st1 code st2)
  then show ?thesis using assms by simp
qed

lemma iteration_effect:
  assumes "iteration e r st = (res, st')"
  shows "(good st' = good st \<or> good st' = r) \<and> (bad st' = bad st \<or> bad st' = r) \<and>
         (\<forall>p. CanDownload p \<in> set (events st') \<longleftrightarrow> CanDownload p \<in> set (events st)) \<and>
         (\<forall>q. Remove q \<in> set (events st') \<longrightarrow>
                Remove q \<in> set (events st) \<or> (q = r \<and> r \<notin> localRevisions st)) \<and>
         localRevisions st \<subseteq> localRevisions st'"
proof (cases rule: iteration_cases [of e r st])
  case (download st1)
  have f1: "good st1 = good st" "bad st1 = bad st" "events st1 = events st @ [Download r]"
    "localRevisions st1 = localRevisions st"
    using downloadRevision_frame [OF download(1)] by simp_all
  have "st' = st1" using assms download(2) by simp
  then show ?thesis using f1 by simp
next
  case (stopped st1 err st2)
  have f1: "good st1 = good st" "bad st1 = bad st" "events st1 = events st @ [Download r]"
    "localRevisions st1 = insert r (localRevisions st)"
    using downloadRevision_frame [OF stopped(1)] by simp_all
  have f2: "good st2 = good st1" "bad st2 = bad st1" "events st2 = events st1"
    "localRevisions st2 = localRevisions st1"
    using evaluate_frame [OF stopped(2)] by simp_all
  have "st' = st2" using assms stopped(3) by simp
  then show ?thesis using f1 f2 by auto
next
  case (completed st1 code st2)
  then have it: "iteration e r st = (None, st')" using assms by simp
  obtain c where c: "((good st' = r \<and> bad st' = bad st) \<or> (bad st' = r \<and> good st' = good st))"
    "events st' = events st @ [Download r, Evaluated r c]
              @ (if r \<in> localRevisions st then [] else [Remove r])"
    "localRevisions st' = localRevisions st"
    using iteration_completed [OF it] by blast
  have "set (events st') = set (events st) \<union> {Download r, Evaluated r c}
      \<union> (if r \<in> localRevisions st then {} else {Remove r})"
    unfolding c(2) by simp
  then show ?thesis using c(1,3) by (cases "r \<in> localRevisions st") auto
qed


lemma bisectRound_cases:
  obtains (fuel) probes where
      "findDownloadableRevision fuel (canDownload e) (middle (good st) (bad st)) (good st) (bad st)
         = (probes, None)"
      "bisectRound fuel e st = (Some OutOfFuel, st\<lparr>events := events st @ map CanDownload probes\<rparr>)"
  | (break) probes found where
      "findDownloadableRevision fuel (canDownload e) (middle (good st) (bad st)) (good st) (bad st)
         = (probes, Some found)"
      "found = None \<or> found = Some 0 \<or> found = Some (good st) \<or> found = Some (bad st)"
      "bisectRound fuel e st = (Some Finished, st\<lparr>events := events st @ map CanDownload probes\<rparr>)"
  | (body) probes r where
      "findDownloadableRevision fuel (canDownload e) (middle (good st) (bad st)) (good st) (bad st)
         = (probes, Some (Some r))"
      "r \<noteq> 0" "r \<noteq> good st" "r \<noteq> bad st"
      "bisectRound fuel e st = iteration e r (st\<lparr>events := events st @ map CanDownload probes\<rparr>)"
proof -
  obtain probes found where f:
    "findDownloadableRevision fuel (canDownload e) (middle (good st) (bad st)) (good st) (bad st)
       = (probes, found)"
    by (cases "findDownloadableRevision fuel (canDownload e) (middle (good st) (bad st)) (good st) (bad st)")
  show thesis
  proof (cases found)
    case None
    then show ?thesis using f fuel by (simp add: bisectRound_def Let_def)
  next
    case (Some found')
    show ?thesis
    proof (cases found')
      case None
      then show ?thesis using f Some break by (simp add: bisectRound_def Let_def)
    next
      case (Some r)
      show ?thesis
      proof (cases "r = 0 \<or> r = good st \<or> r = bad st")
        case True
        have "bisectRound fuel e st = (Some Finished, st\<lparr>events := events st @ map CanDownload probes\<rparr>)"
          using f \<open>found = Some found'\<close> Some True by (simp add: bisectRound_def Let_def)
        moreover have "found' = None \<or> found' = Some 0 \<or> found' = Some (good st) \<or> found' = Some (bad st)"
          using Some True by auto
        ultimately show ?thesis using f \<open>found = Some found'\<close> break by simp
      next
        case False
        have "bisectRound fuel e st = iteration e r (st\<lparr>events := events st @ map CanDownload probes\<rparr>)"
          using f \<open>found = Some found'\<close> Some False by (simp add: bisectRound_def Let_def)
        then show ?thesis using f \<open>found = Some found'\<close> Some False body by simp
      qed
    qed
  qed
qed



lemma probes_of_round_within:
  assumes "findDownloadableRevision fuel can (middle g b) g b = (probes, found)"
  shows "(\<forall>p \<in> set probes. min g b \<le> p \<and> p \<le> max g b) \<and>
         (\<forall>r. found = Some (Some r) \<longrightarrow> min g b \<le> r \<and> r \<le> max g b)"
  using findDownloadableRevision_within [of g b "middle g b" fuel can] middle_within [of g b] assms
  by simp



lemma bisectRound_within:
  assumes "lo \<le> min (good st) (bad st)" "max (good st) (bad st) \<le> hi"
    and "\<forall>p. CanDownload p \<in> set (events st) \<longrightarrow> lo \<le> p \<and> p \<le> hi"
    and "bisectRound fuel e st = (res, st')"
  shows "lo \<le> min (good st') (bad st') \<and> max (good st') (bad st') \<le> hi \<and>
         (\<forall>p. CanDownload p \<in> set (events st') \<longrightarrow> lo \<le> p \<and> p \<le> hi)"
proof (cases rule: bisectRound_cases [of fuel e st])
  case (fuel probes)
  then have "st' = st\<lparr>events := events st @ map CanDownload probes\<rparr>" using assms(4) by simp
  then show ?thesis using assms(1,2,3) probes_of_round_within [OF fuel(1)] by auto
next
  case (break probes found)
  then have "st' = st\<lparr>events := events st @ map CanDownload probes\<rparr>" using assms(4) by simp
  then show ?thesis using assms(1,2,3) probes_of_round_within [OF break(1)] by auto
next
  case (body probes r)
  let ?st0 = "st\<lparr>events := events st @ map CanDownload probes\<rparr>"
  have w: "(\<forall>p \<in> set probes. min (good st) (bad st) \<le> p \<and> p \<le> max (good st) (bad st))"
    "min (good st) (bad st) \<le> r \<and> r \<le> max (good st) (bad st)"
    using probes_of_round_within [OF body(1)] by auto
  have it: "iteration e r ?st0 = (res, st')" using body(5) assms(4) by simp
  have eff: "(good st' = good st \<or> good st' = r) \<and> (bad st' = bad st \<or> bad st' = r) \<and>
         (\<forall>p. CanDownload p \<in> set (events st') \<longleftrightarrow> CanDownload p \<in> set (events ?st0))"
    using iteration_effect [OF it] by simp
  have "\<forall>p. CanDownload p \<in> set (events ?st0) \<longrightarrow> lo \<le> p \<and> p \<le> hi"
    using assms(1,2,3) w(1) by auto
  then have ev: "\<forall>p. CanDownload p \<in> set (events st') \<longrightarrow> lo \<le> p \<and> p \<le> hi"
    using eff by blast
  have "lo \<le> min (good st') (bad st') \<and> max (good st') (bad st') \<le> hi"
    using eff w(2) assms(1,2) by (auto simp: min_def max_def split: if_splits)
  then show ?thesis using ev by blast
qed



section \<open>Properties of the loop\<close>

lemma bisectLoop_Suc_continue:
  "bisectRound fuel e st = (None, st') \<Longrightarrow> bisectLoop (Suc fuel) e st = bisectLoop fuel e st'"
  by simp

lemma bisectLoop_Suc_stop:
  "bisectRound fuel e st = (Some reason, st') \<Longrightarrow> bisectLoop (Suc fuel) e st = (reason, st')"
  by simp

lemma bisectLoop_within:
  assumes "lo \<le> min (good st) (bad st)" "max (good st) (bad st) \<le> hi"
    and "\<forall>p. CanDownload p \<in> set (events st) \<longrightarrow> lo \<le> p \<and> p \<le> hi"
  shows "lo \<le> min (good (snd (bisectLoop fuel e st))) (bad (snd (bisectLoop fuel e st))) \<and>
         max (good (snd (bisectLoop fuel e st))) (bad (snd (bisectLoop fuel e st))) \<le> hi \<and>
         (\<forall>p. CanDownload p \<in> set (events (snd (bisectLoop fuel e st))) \<longrightarrow> lo \<le> p \<and> p \<le> hi)"
  using assms
proof (induction fuel arbitrary: st)
  case 0
  then show ?case by simp
next
  case (Suc fuel)
  obtain res st' where r: "bisectRound fuel e st = (res, st')" by (cases "bisectRound fuel e st")
  have w: "lo \<le> min (good st') (bad st')" "max (good st') (bad st') \<le> hi"
         "\<forall>p. CanDownload p \<in> set (events st') \<longrightarrow> lo \<le> p \<and> p \<le> hi"
    using bisectRound_within [OF Suc.prems r] by blast+
  show ?case
  proof (cases res)
    case None
    then have "bisectLoop (Suc fuel) e st = bisectLoop fuel e st'"
      using r by (intro bisectLoop_Suc_continue) simp
    then show ?thesis using Suc.IH [OF w] by (simp only:) blast
  next
    case (Some reason)
    then have "bisectLoop (Suc fuel) e st = (reason, st')"
      using r by (intro bisectLoop_Suc_stop) simp
    then show ?thesis using w by (simp only: snd_conv)
  qed
qed


lemma bisectRound_stuck:
  assumes "\<forall>r. min (good st) (bad st) \<le> r \<and> r \<le> max (good st) (bad st) \<longrightarrow> \<not> canDownload e r"
  shows "fst (bisectRound fuel e st) = Some OutOfFuel"
proof -
  have "snd (findDownloadableRevision fuel (canDownload e) (middle (good st) (bad st))
               (good st) (bad st)) = None"
    using middle_within [of "good st" "bad st"] assms
    by (intro findDownloadableRevision_stuck) auto
  then show ?thesis by (simp add: bisectRound_def split_def)
qed

lemma bisectLoop_stuck:
  assumes "\<forall>r. min (good st) (bad st) \<le> r \<and> r \<le> max (good st) (bad st) \<longrightarrow> \<not> canDownload e r"
  shows "fst (bisectLoop fuel e st) = OutOfFuel"
proof (cases fuel)
  case 0
  then show ?thesis by simp
next
  case (Suc n)
  have "fst (bisectRound n e st) = Some OutOfFuel" using assms by (rule bisectRound_stuck)
  then show ?thesis using Suc by (simp add: split_def)
qed


lemma narrow_bounds:
  "good (narrow code revision st) = (if truthy code then good st else revision) \<and>
   bad (narrow code revision st) = (if truthy code then revision else bad st)"
  by (simp add: narrow_def)

lemma remove_bounds: "good (remove revision st) = good st \<and> bad (remove revision st) = bad st"
  by (simp add: remove_def)

lemma iteration_after_evaluation:
  assumes "revision \<in> localRevisions st \<or> downloadOk e revision"
    and "fst (evaluate e revision st) = Inr code"
  shows "fst (iteration e revision st) = None \<and>
         good (snd (iteration e revision st)) = (if truthy code then good st else revision) \<and>
         bad (snd (iteration e revision st)) = (if truthy code then revision else bad st)"
proof -
  obtain ok st1 where d: "downloadRevision e revision st = (ok, st1)"
    by (cases "downloadRevision e revision st")
  have f1: "good st1 = good st" "bad st1 = bad st" "answers st1 = answers st" and ok: ok
    using downloadRevision_frame [OF d] assms(1) by simp_all
  obtain res st2 where ev: "evaluate e revision st1 = (res, st2)"
    by (cases "evaluate e revision st1")
  have "fst (evaluate e revision st1) = fst (evaluate e revision st)"
    using f1(3) by (rule evaluate_answers_only)
  then have res: "res = Inr code" using ev assms(2) by (metis fst_conv)
  have d': "downloadRevision e revision st = (True, st1)" using d ok by simp
  have ev': "evaluate e revision st1 = (Inr code, st2)" using ev res by simp
  have f2: "good st2 = good st" "bad st2 = bad st"
    using evaluate_frame [OF ev] f1 by simp_all
  let ?st3 = "if revision \<notin> localRevisions st then remove revision st2 else st2"
  have f3: "good ?st3 = good st" "bad ?st3 = bad st"
    using f2 remove_bounds [of revision st2] by simp_all
  have it: "iteration e revision st = (None, narrow code revision ?st3)"
    using d' ev' by (rule iteration_unfold)
  have "good (narrow code revision ?st3) = (if truthy code then good st else revision)"
       "bad (narrow code revision ?st3) = (if truthy code then revision else bad st)"
    using narrow_bounds [of code revision ?st3] f3 by (simp_all only:)
  then show ?thesis by (simp only: it fst_conv snd_conv)
qed

lemma bisectRound_keeps_local:
  assumes "onDisk \<subseteq> localRevisions st"
    and "\<forall>r \<in> onDisk. Remove r \<notin> set (events st)"
    and "bisectRound fuel e st = (res, st')"
  shows "onDisk \<subseteq> localRevisions st' \<and> (\<forall>r \<in> onDisk. Remove r \<notin> set (events st'))"
proof (cases rule: bisectRound_cases [of fuel e st])
  case (fuel probes)
  then have "st' = st\<lparr>events := events st @ map CanDownload probes\<rparr>" using assms(3) by simp
  then show ?thesis using assms(1,2) by auto
next
  case (break probes found)
  then have "st' = st\<lparr>events := events st @ map CanDownload probes\<rparr>" using assms(3) by simp
  then show ?thesis using assms(1,2) by auto
next
  case (body probes r)
  let ?st0 = "st\<lparr>events := events st @ map CanDownload probes\<rparr>"
  have it: "iteration e r ?st0 = (res, st')" using body(5) assms(3) by simp
  have eff: "(\<forall>q. Remove q \<in> set (events st') \<longrightarrow>
                Remove q \<in> set (events ?st0) \<or> (q = r \<and> r \<notin> localRevisions ?st0))"
       "localRevisions ?st0 \<subseteq> localRevisions st'"
    using iteration_effect [OF it] by blast+
  have "\<forall>q \<in> onDisk. Remove q \<notin> set (events ?st0)" using assms(2) by auto
  then have "\<forall>q \<in> onDisk. Remove q \<notin> set (events st')"
    using eff(1) assms(1) by auto
  moreover have "onDisk \<subseteq> localRevisions st'" using eff(2) assms(1) by auto
  ultimately show ?thesis by blast
qed

lemma bisectLoop_keeps_local:
  assumes "onDisk \<subseteq> localRevisions st"
    and "\<forall>r \<in> onDisk. Remove r \<notin> set (events st)"
  shows "onDisk \<subseteq> localRevisions (snd (bisectLoop fuel e st)) \<and>
         (\<forall>r \<in> onDisk. Remove r \<notin> set (events (snd (bisectLoop fuel e st))))"
  using assms
proof (induction fuel arbitrary: st)
  case 0
  then show ?case by simp
next
  case (Suc fuel)
  obtain res st' where r: "bisectRound fuel e st = (res, st')" by (cases "bisectRound fuel e st")
  have w: "onDisk \<subseteq> localRevisions st'" "\<forall>r \<in> onDisk. Remove r \<notin> set (events st')"
    using bisectRound_keeps_local [OF Suc.prems r] by blast+
  show ?case
  proof (cases res)
    case None
    then have eq: "bisectLoop (Suc fuel) e st = bisectLoop fuel e st'"
      using r by (intro bisectLoop_Suc_continue) simp
    show ?thesis unfolding eq by (rule Suc.IH [OF w])
  next
    case (Some reason)
    then have eq: "bisectLoop (Suc fuel) e st = (reason, st')"
      using r by (intro bisectLoop_Suc_stop) simp
    show ?thesis unfolding eq snd_conv using w by blast
  qed
qed

section \<open>Properties of the prompts\<close>

lemma manualPrompt_reprompt:
  assumes "toLowerCase (trim line) \<notin> {''g'', ''good'', ''b'', ''bad''}"
  shows "manualPrompt (line # rest) = manualPrompt rest"
  using assms by (simp add: Let_def)

lemma isGood_reprompt:
  assumes "ask line \<notin> set goodAnswers \<union> set badAnswers"
  shows "isGood (line # rest) = isGood rest"
  using assms by (simp add: Let_def)

lemma evaluate_reprompt:
  assumes "manualPrompt (line # rest) = manualPrompt rest" and "isManual e"
  shows "evaluate e revision (st\<lparr>answers := line # rest\<rparr>)
       = evaluate e revision (st\<lparr>answers := rest\<rparr>)"
  using assms
  by (simp add: evaluate_def del: manualPrompt.simps split: prod.splits exitCode.splits)

lemma iteration_reprompt:
  assumes "manualPrompt (line # rest) = manualPrompt rest" and "isManual e"
    and "revision \<in> localRevisions st \<or> downloadOk e revision"
  shows "iteration e revision (st\<lparr>answers := line # rest\<rparr>)
       = iteration e revision (st\<lparr>answers := rest\<rparr>)"
  using assms
  by (auto simp add: iteration_def downloadRevision_def evaluate_def Let_def
        simp del: manualPrompt.simps split: prod.splits exitCode.splits)

text \<open>
  In \<open>default.js\<close> the set \<open>badAnswers\<close> holds \<open>' no'\<close>, with a leading space, so the
  answer \<open>no\<close> is not recognised there and the question is asked again.
\<close>

lemma isGood_no_reprompts: "isGood (''no'' # rest) = isGood rest"
  by (simp add: ask_def toLowerCase_def goodAnswers_def badAnswers_def)

section \<open>Properties of the launcher\<close>

lemma tryCatch_eq: "tryCatch r = (None, snd r)"
  by (cases r) simp

lemma killChrome_unfold:
  "killChrome c =
     (None, snd (removeFolderSync (temporaryUserDataDir c)
        (if truthyPid (pid c) \<and> \<not> killed c \<and> \<not> chromeClosed c
         then snd (forceKill (c\<lparr>listeners := []\<rparr>)) else c\<lparr>listeners := []\<rparr>)))"
proof -
  have t: "temporaryUserDataDir (snd (forceKill c1)) = temporaryUserDataDir c1" for c1
    by (simp add: forceKill_def Let_def)
  show ?thesis
    by (simp add: killChrome_def removeEventListeners_def tryCatch_eq t)
qed

lemma killChrome_no_error: "fst (killChrome c) = None"
  by (simp add: killChrome_unfold)

lemma perform_no_error: "fst (perform a c) = None"
  by (cases a) (simp_all add: gracefullyCloseChrome_def killChrome_no_error onExit_def Let_def)

lemma performAll_no_error: "fst (performAll acts c) = None"
proof (induction acts arbitrary: c)
  case Nil
  then show ?case by simp
next
  case (Cons a acts)
  obtain c' where "perform a c = (None, c')"
    using perform_no_error [of a c] by (cases "perform a c") simp
  then show ?case using Cons.IH [of c'] by simp
qed

lemma performAll_Cons: "performAll (a # acts) c = performAll acts (snd (perform a c))"
proof -
  obtain c' where "perform a c = (None, c')"
    using perform_no_error [of a c] by (cases "perform a c") simp
  then show ?thesis by simp
qed

lemma close_kills:
  "kills (snd (gracefullyCloseChrome c)) =
     (if truthyPid (pid c) \<and> \<not> killed c \<and> \<not> chromeClosed c
      then kills c @ [if onWin32 c then Taskkill (the (pid c)) else KillGroup (the (pid c))]
      else kills c)"
  by (simp add: gracefullyCloseChrome_def killChrome_unfold forceKill_def removeFolderSync_def Let_def)

lemma close_frame:
  "pid (snd (gracefullyCloseChrome c)) = pid c \<and>
   killed (snd (gracefullyCloseChrome c)) = killed c \<and>
   chromeClosed (snd (gracefullyCloseChrome c)) = chromeClosed c \<and>
   onWin32 (snd (gracefullyCloseChrome c)) = onWin32 c \<and>
   temporaryUserDataDir (snd (gracefullyCloseChrome c)) = temporaryUserDataDir c \<and>
   listeners (snd (gracefullyCloseChrome c)) = []"
  by (simp add: gracefullyCloseChrome_def killChrome_unfold forceKill_def removeFolderSync_def Let_def)

lemma onExit_frame:
  "chromeClosed (snd (onExit c)) \<and> kills (snd (onExit c)) = kills c \<and>
   temporaryUserDataDir (snd (onExit c)) = temporaryUserDataDir c"
  by (simp add: onExit_def Let_def)

text \<open>
  Calls of \<open>close\<close> and \<open>exit\<close> events in any order give no error. A \<open>close\<close> after the
  \<open>exit\<close> event issues no kill command; two in a row on a live process issue two.
\<close>

lemma close_sequences:
  "fst (performAll acts c) = None \<and>
   kills (snd (performAll [Close, ExitEvent, Close] c)) = kills (snd (performAll [Close] c)) \<and>
   (truthyPid (pid c) \<and> \<not> killed c \<and> \<not> chromeClosed c \<longrightarrow>
      kills (snd (performAll [Close, Close] c)) =
        kills c @ [if onWin32 c then Taskkill (the (pid c)) else KillGroup (the (pid c)),
                   if onWin32 c then Taskkill (the (pid c)) else KillGroup (the (pid c))])"
proof -
  let ?c1 = "snd (gracefullyCloseChrome c)"
  let ?c2 = "snd (onExit ?c1)"
  have a: "kills (snd (gracefullyCloseChrome ?c2)) = kills ?c1"
    using close_kills [of ?c2] onExit_frame [of ?c1] by simp
  have b: "kills (snd (gracefullyCloseChrome ?c1)) =
        kills c @ [if onWin32 c then Taskkill (the (pid c)) else KillGroup (the (pid c)),
                   if onWin32 c then Taskkill (the (pid c)) else KillGroup (the (pid c))]"
    if "truthyPid (pid c) \<and> \<not> killed c \<and> \<not> chromeClosed c"
    using that close_kills [of ?c1] close_kills [of c] close_frame [of c] by simp
  have p1: "snd (performAll [Close] c) = ?c1"
    and p2: "snd (performAll [Close, Close] c) = snd (gracefullyCloseChrome ?c1)"
    and p3: "snd (performAll [Close, ExitEvent, Close] c) = snd (gracefullyCloseChrome ?c2)"
    by (simp_all only: performAll_Cons performAll.simps(1) perform.simps snd_conv)
  show ?thesis
    unfolding p1 p2 p3 using a b performAll_no_error [of acts c] by blast
qed

lemma launch_with_profile_argument:
  assumes "list_ex (\<lambda>arg. startsWith arg ''--user-data-dir'') (initialArguments options)"
  shows "temporaryUserDataDir (launch options h existing) = None \<and>
         chromeArguments (launch options h existing) = initialArguments options \<and>
         dirs (launch options h existing) = existing \<and>
         removals (launch options h existing) = []"
  using assms by (simp add: launch_def Let_def del: initialArguments.simps)

lemma caller_argument_is_kept:
  assumes "ignoreDefaultArgs options = IgnoreBool flag"
    and "list_ex (\<lambda>arg. startsWith arg ''--user-data-dir'') (args options)"
  shows "list_ex (\<lambda>arg. startsWith arg ''--user-data-dir'') (initialArguments options)"
  using assms by (cases flag) (auto simp: defaultArgs_def list_ex_iff)

lemma perform_without_profile:
  assumes "temporaryUserDataDir c = None"
  shows "temporaryUserDataDir (snd (perform a c)) = None \<and>
         dirs (snd (perform a c)) = dirs c \<and> removals (snd (perform a c)) = removals c"
proof (cases a)
  case Close
  then show ?thesis
    using assms
    by (simp add: gracefullyCloseChrome_def killChrome_unfold forceKill_def removeFolderSync_def Let_def)
next
  case ExitEvent
  then show ?thesis using assms by (simp add: onExit_def Let_def)
qed

lemma performAll_without_profile:
  assumes "temporaryUserDataDir c = None"
  shows "dirs (snd (performAll acts c)) = dirs c \<and>
         removals (snd (performAll acts c)) = removals c"
  using assms
proof (induction acts arbitrary: c)
  case Nil
  then show ?case by simp
next
  case (Cons a acts)
  have step: "temporaryUserDataDir (snd (perform a c)) = None"
    "dirs (snd (perform a c)) = dirs c" "removals (snd (perform a c)) = removals c"
    using perform_without_profile [OF Cons.prems, of a] by simp_all
  show ?case
    unfolding performAll_Cons using Cons.IH [OF step(1)] step(2,3) by simp
qed

lemma perform_removes_only_profile:
  "temporaryUserDataDir (snd (perform a c)) = temporaryUserDataDir c \<and>
   set (removals (snd (perform a c))) \<subseteq> set (removals c) \<union> set_option (temporaryUserDataDir c)"
proof (cases a)
  case Close
  then show ?thesis
    by (cases "temporaryUserDataDir c")
       (auto simp: gracefullyCloseChrome_def killChrome_unfold forceKill_def removeFolderSync_def Let_def)
next
  case ExitEvent
  then show ?thesis
    by (cases "temporaryUserDataDir c") (auto simp: onExit_def Let_def)
qed

lemma performAll_removes_only_profile:
  "set (removals (snd (performAll acts c))) \<subseteq> set (removals c) \<union> set_option (temporaryUserDataDir c)"
proof (induction acts arbitrary: c)
  case Nil
  then show ?case by simp
next
  case (Cons a acts)
  have step: "temporaryUserDataDir (snd (perform a c)) = temporaryUserDataDir c"
    "set (removals (snd (perform a c))) \<subseteq> set (removals c) \<union> set_option (temporaryUserDataDir c)"
    using perform_removes_only_profile [of a c] by simp_all
  have "set (removals (snd (performAll acts (snd (perform a c)))))
      \<subseteq> set (removals (snd (perform a c))) \<union> set_option (temporaryUserDataDir (snd (perform a c)))"
    by (rule Cons.IH)
  then show ?case unfolding performAll_Cons using step by auto
qed

lemma launch_profile:
  "removals (launch options h existing) = [] \<and>
   set_option (temporaryUserDataDir (launch options h existing))
     \<subseteq> {CHROME_PROFILE_PATH h @ mkdtempSuffix h}"
  by (simp add: launch_def Let_def del: initialArguments.simps)


section \<open>Termination when something can be downloaded\<close>

text \<open>
  When some revision between the bounds can be downloaded, a front reaches it and the prober
  returns; a run of \<open>bisect\<close> then stops after at most \<open>|good - bad| + 1\<close> rounds, every
  later call of the prober having a downloadable endpoint to reach.
\<close>

lemma findLoop_Suc_down:
  assumes "mn < down"
  shows "snd (findLoop (Suc fuel) can mn mx down up) =
     (if can (down - 1) then Some (Some (down - 1))
      else if up < mx \<and> can (up + 1) then Some (Some (up + 1))
      else snd (findLoop fuel can mn mx (down - 1) (if up < mx then up + 1 else up)))"
  using assms by (simp add: Let_def split_def)

lemma findLoop_Suc_up:
  assumes "up < mx"
  shows "snd (findLoop (Suc fuel) can mn mx down up) =
     (if mn < down \<and> can (down - 1) then Some (Some (down - 1))
      else if can (up + 1) then Some (Some (up + 1))
      else snd (findLoop fuel can mn mx (if mn < down then down - 1 else down) (up + 1)))"
  using assms by (simp add: Let_def split_def)

lemma findLoop_reaches_down:
  "mn \<le> t \<Longrightarrow> can t \<Longrightarrow> down = t + 1 + int k \<Longrightarrow>
   snd (findLoop (Suc k) can mn mx down up) \<noteq> None"
proof (induction k arbitrary: down up)
  case 0
  then have "mn < down" "down - 1 = t" by simp_all
  then show ?case using 0 by (simp only: findLoop_Suc_down) simp
next
  case (Suc k)
  then have d: "mn < down" and e: "down - 1 = t + 1 + int k" by simp_all
  have "snd (findLoop (Suc k) can mn mx (down - 1) (if up < mx then up + 1 else up)) \<noteq> None"
    using Suc.IH [OF Suc.prems(1,2) e] .
  then show ?case by (simp only: findLoop_Suc_down [OF d]) simp
qed

lemma findLoop_reaches_up:
  "t \<le> mx \<Longrightarrow> can t \<Longrightarrow> t = up + 1 + int k \<Longrightarrow>
   snd (findLoop (Suc k) can mn mx down up) \<noteq> None"
proof (induction k arbitrary: down up)
  case 0
  then have "up < mx" "up + 1 = t" by simp_all
  then show ?case using 0 by (simp only: findLoop_Suc_up) simp
next
  case (Suc k)
  then have d: "up < mx" and e: "t = (up + 1) + 1 + int k" by simp_all
  have "snd (findLoop (Suc k) can mn mx (if mn < down then down - 1 else down) (up + 1)) \<noteq> None"
    using Suc.IH [OF Suc.prems(1,2) e] .
  then show ?case by (simp only: findLoop_Suc_up [OF d]) simp
qed

lemma findLoop_fuel_mono:
  "snd (findLoop fuel can mn mx down up) \<noteq> None \<Longrightarrow>
   findLoop (fuel + extra) can mn mx down up = findLoop fuel can mn mx down up"
proof (induction fuel arbitrary: down up)
  case 0
  then show ?case by simp
next
  case (Suc fuel)
  let ?d = "if down > mn then down - 1 else down"
  let ?u = "if up < mx then up + 1 else up"
  show ?case
  proof (cases "(mn \<le> down \<or> up \<le> mx) \<and> \<not> (mn < down \<and> can ?d) \<and> \<not> (up < mx \<and> can ?u)")
    case True
    then have "snd (findLoop fuel can mn mx ?d ?u) \<noteq> None"
      using Suc.prems by (auto simp: Let_def split_def split: if_splits)
    then have "findLoop (fuel + extra) can mn mx ?d ?u = findLoop fuel can mn mx ?d ?u"
      by (rule Suc.IH)
    then show ?thesis using True by (auto simp: Let_def split_def)
  next
    case False
    then show ?thesis by (auto simp: Let_def split_def)
  qed
qed

lemma findLoop_result_downloadable:
  "snd (findLoop fuel can mn mx down up) = Some (Some r) \<Longrightarrow> can r"
proof (induction fuel arbitrary: down up)
  case 0
  then show ?case by simp
next
  case (Suc fuel)
  let ?d = "if down > mn then down - 1 else down"
  let ?u = "if up < mx then up + 1 else up"
  show ?case
  proof (cases "(mn \<le> down \<or> up \<le> mx) \<and> \<not> (mn < down \<and> can ?d) \<and> \<not> (up < mx \<and> can ?u)")
    case True
    then have "snd (findLoop fuel can mn mx ?d ?u) = Some (Some r)"
      using Suc.prems by (auto simp: Let_def split_def split: if_splits)
    then show ?thesis by (rule Suc.IH)
  next
    case False
    then show ?thesis using Suc.prems by (auto simp: Let_def split_def split: if_splits)
  qed
qed

lemma findDownloadableRevision_result_downloadable:
  "snd (findDownloadableRevision fuel can revision from to) = Some (Some r) \<Longrightarrow> can r"
  using findLoop_result_downloadable [of fuel can "min from to" "max from to" revision revision r]
  by (auto simp: findDownloadableRevision_def Let_def split_def split: if_splits)

lemma findLoop_returns:
  assumes "mn \<le> t" "t \<le> mx" "can t" "t \<noteq> revision" "nat \<bar>revision - t\<bar> \<le> fuel"
  shows "snd (findLoop fuel can mn mx revision revision) \<noteq> None"
proof -
  obtain k where k: "nat \<bar>revision - t\<bar> = Suc k"
    using assms(4) by (cases "nat \<bar>revision - t\<bar>") auto
  have enough: "snd (findLoop (Suc k) can mn mx revision revision) \<noteq> None"
  proof (cases "t < revision")
    case True
    then have "revision = t + 1 + int k" using k by linarith
    then show ?thesis using assms(1,3) by (intro findLoop_reaches_down)
  next
    case False
    then have "t = revision + 1 + int k" using k assms(4) by linarith
    then show ?thesis using assms(2,3) by (intro findLoop_reaches_up)
  qed
  obtain extra where "fuel = Suc k + extra"
    using assms(5) k by (metis le_Suc_ex)
  then show ?thesis using findLoop_fuel_mono [OF enough, of extra] enough by simp
qed

lemma findDownloadableRevision_returns:
  assumes "min from to \<le> t" "t \<le> max from to" "can t" "nat \<bar>revision - t\<bar> \<le> fuel"
  shows "snd (findDownloadableRevision fuel can revision from to) \<noteq> None"
proof (cases "can revision")
  case True
  then show ?thesis by (simp add: findDownloadableRevision_def Let_def)
next
  case False
  then have "t \<noteq> revision" using assms(3) by auto
  then have "snd (findLoop fuel can (min from to) (max from to) revision revision) \<noteq> None"
    using assms by (intro findLoop_returns)
  then show ?thesis using False by (simp add: findDownloadableRevision_def Let_def split_def)
qed

lemma bisectRound_completed:
  assumes "bisectRound fuel e st = (None, st')"
  obtains r where "min (good st) (bad st) < r" "r < max (good st) (bad st)" "canDownload e r"
    "(good st' = r \<and> bad st' = bad st) \<or> (bad st' = r \<and> good st' = good st)"
proof (cases rule: bisectRound_cases [of fuel e st])
  case (fuel probes)
  then show ?thesis using assms by simp
next
  case (break probes found)
  then show ?thesis using assms by simp
next
  case (body probes r)
  let ?st0 = "st\<lparr>events := events st @ map CanDownload probes\<rparr>"
  have "iteration e r ?st0 = (None, st')" using body(5) assms by simp
  then have gb: "(good st' = r \<and> bad st' = bad st) \<or> (bad st' = r \<and> good st' = good st)"
    using iteration_completed [of e r ?st0 st'] by simp
  have "min (good st) (bad st) \<le> r \<and> r \<le> max (good st) (bad st)"
    using probes_of_round_within [OF body(1)] by simp
  then have "min (good st) (bad st) < r" "r < max (good st) (bad st)"
    using body(3,4) by (auto simp: min_def max_def split: if_splits)
  moreover have "snd (findDownloadableRevision fuel (canDownload e) (middle (good st) (bad st))
      (good st) (bad st)) = Some (Some r)"
    using body(1) by simp
  then have "canDownload e r" by (rule findDownloadableRevision_result_downloadable)
  ultimately show ?thesis using gb that by blast
qed

lemma evaluate_error:
  "evaluate e revision st = (Inl err, st2) \<Longrightarrow> err = AwaitingAnswer \<or> err = ScriptRejected"
  by (cases "script e revision")
     (auto simp: evaluate_def split: if_splits prod.splits exitCode.splits)

lemma iteration_stop_reason:
  assumes "iteration e r st = (Some reason, st')"
  shows "reason \<noteq> OutOfFuel"
proof (cases rule: iteration_cases [of e r st])
  case (download st1)
  then show ?thesis using assms by simp
next
  case (stopped st1 err st2)
  then show ?thesis using assms evaluate_error [OF stopped(2)] by auto
next
  case (completed st1 code st2)
  then show ?thesis using assms by simp
qed

lemma bisectLoop_terminates:
  assumes "min (good st) (bad st) \<le> t" "t \<le> max (good st) (bad st)" "canDownload e t"
    and "nat \<bar>good st - bad st\<bar> < fuel"
  shows "fst (bisectLoop fuel e st) \<noteq> OutOfFuel"
  using assms
proof (induction fuel arbitrary: st t)
  case 0
  then show ?case by simp
next
  case (Suc fuel)
  let ?m = "middle (good st) (bad st)"
  have "nat \<bar>?m - t\<bar> \<le> fuel"
    using middle_within [of "good st" "bad st"] Suc.prems(1,2,4)
    by (auto simp: min_def max_def split: if_splits)
  then have returns: "snd (findDownloadableRevision fuel (canDownload e) ?m (good st) (bad st)) \<noteq> None"
    using Suc.prems(1,2,3) by (intro findDownloadableRevision_returns)
  obtain res st' where r: "bisectRound fuel e st = (res, st')" by (cases "bisectRound fuel e st")
  show ?case
  proof (cases res)
    case None
    then have c: "bisectRound fuel e st = (None, st')" using r by simp
    then have eq: "bisectLoop (Suc fuel) e st = bisectLoop fuel e st'"
      by (rule bisectLoop_Suc_continue)
    obtain r' where r': "min (good st) (bad st) < r'" "r' < max (good st) (bad st)"
      "canDownload e r'"
      "(good st' = r' \<and> bad st' = bad st) \<or> (bad st' = r' \<and> good st' = good st)"
      using bisectRound_completed [OF c] by blast
    have "min (good st') (bad st') \<le> r'" "r' \<le> max (good st') (bad st')"
      using r'(4) by auto
    moreover have "nat \<bar>good st' - bad st'\<bar> < fuel"
      using r'(1,2,4) Suc.prems(4) by (auto simp: min_def max_def split: if_splits)
    ultimately show ?thesis unfolding eq using r'(3) by (intro Suc.IH)
  next
    case (Some reason)
    then have s: "bisectRound fuel e st = (Some reason, st')" using r by simp
    then have eq: "bisectLoop (Suc fuel) e st = (reason, st')"
      by (rule bisectLoop_Suc_stop)
    have "reason \<noteq> OutOfFuel"
    proof (cases rule: bisectRound_cases [of fuel e st])
      case (fuel probes)
      then show ?thesis using returns by simp
    next
      case (break probes found)
      then show ?thesis using s by simp
    next
      case (body probes r)
      then show ?thesis using s iteration_stop_reason [of e r _ reason st'] by simp
    qed
    then show ?thesis unfolding eq by simp
  qed
qed

lemma iteration_completes_iff:
  "fst (iteration e revision st) = None \<longleftrightarrow>
     (revision \<in> localRevisions st \<or> downloadOk e revision) \<and>
     (\<exists>code. fst (evaluate e revision st) = Inr code)"
proof
  assume none: "fst (iteration e revision st) = None"
  show "(revision \<in> localRevisions st \<or> downloadOk e revision) \<and>
     (\<exists>code. fst (evaluate e revision st) = Inr code)"
  proof (cases rule: iteration_cases [of e revision st])
    case (download st1)
    then show ?thesis using none by simp
  next
    case (stopped st1 err st2)
    then show ?thesis using none by simp
  next
    case (completed st1 code st2)
    have ok: "revision \<in> localRevisions st \<or> downloadOk e revision"
      and a: "answers st1 = answers st"
      using downloadRevision_frame [OF completed(1)] by simp_all
    have "fst (evaluate e revision st1) = fst (evaluate e revision st)"
      using a by (rule evaluate_answers_only)
    then have "fst (evaluate e revision st) = Inr code" using completed(2) by simp
    then show ?thesis using ok by blast
  qed
next
  assume "(revision \<in> localRevisions st \<or> downloadOk e revision) \<and>
     (\<exists>code. fst (evaluate e revision st) = Inr code)"
  then obtain code where "revision \<in> localRevisions st \<or> downloadOk e revision"
    "fst (evaluate e revision st) = Inr code" by blast
  then show "fst (iteration e revision st) = None"
    using iteration_after_evaluation [of revision st e code] by blast
qed

section \<open>The claims\<close>

text \<open>
  C1. For \<open>findDownloadableRevision(rev, from, to)\<close> with \<open>rev\<close> between the bounds, the
  claim is that the prober terminates, and returns \<open>null\<close> when nothing between the bounds
  can be downloaded. The code does not: at \<open>rev = 577362\<close>, \<open>from = 577361\<close>,
  \<open>to = 577363\<close> with nothing downloadable, the loop condition \<open>min <= down || up <= max\<close>
  still holds when the fronts stand on the bounds, and no amount of fuel gives a result.
\<close>

theorem prober_never_returns_when_nothing_is_downloadable:
  "snd (findDownloadableRevision fuel (\<lambda>_. False) 577362 577361 577363) = None"
  by (rule findDownloadableRevision_stuck) simp_all

text \<open>
  C2. The claim is that the run terminates for every pair \<open>good \<noteq> bad\<close> and returns the
  final pair. With \<open>good = 577361\<close>, \<open>bad = 577363\<close> and nothing downloadable, the first call
  of the prober never returns, so for every amount of fuel the run is still going.
\<close>

theorem bisect_never_returns_when_nothing_is_downloadable:
  "fst (bisect fuel \<lparr>canDownload = (\<lambda>_. False), downloadOk = (\<lambda>_. True),
                     script = (\<lambda>_. Exited 0), isManual = False\<rparr> 577361 577363 {} [])
   = OutOfFuel"
  unfolding bisect_def by (rule bisectLoop_stuck) simp

text \<open>
  C3. For \<open>findDownloadableRevision(rev, from, to)\<close> with \<open>rev\<close> between the bounds, every
  revision handed to \<open>canDownload\<close> and every revision returned lies between \<open>min(from, to)\<close>
  and \<open>max(from, to)\<close>; and in a run of \<open>bisect\<close>, however far it has got, every revision
  handed to \<open>canDownload\<close> and the current pair \<open>(good, bad)\<close> lie between the initial bounds.
\<close>

theorem probes_and_result_within_bounds:
  assumes "min from to \<le> revision" and "revision \<le> max from to"
  shows "(\<forall>p \<in> set (fst (findDownloadableRevision fuel can revision from to)).
            min from to \<le> p \<and> p \<le> max from to) \<and>
         (\<forall>r. snd (findDownloadableRevision fuel can revision from to) = Some (Some r) \<longrightarrow>
            min from to \<le> r \<and> r \<le> max from to) \<and>
         (\<forall>p. CanDownload p \<in> set (events (snd (bisect n e g b onDisk input))) \<longrightarrow>
            min g b \<le> p \<and> p \<le> max g b) \<and>
         min g b \<le> min (good (snd (bisect n e g b onDisk input)))
                        (bad (snd (bisect n e g b onDisk input))) \<and>
         max (good (snd (bisect n e g b onDisk input)))
             (bad (snd (bisect n e g b onDisk input))) \<le> max g b"
proof -
  let ?st = "\<lparr>good = g, bad = b, localRevisions = onDisk, answers = input, events = []\<rparr>"
  have "min g b \<le> min (good ?st) (bad ?st)" "max (good ?st) (bad ?st) \<le> max g b"
    "\<forall>p. CanDownload p \<in> set (events ?st) \<longrightarrow> min g b \<le> p \<and> p \<le> max g b"
    by simp_all
  then have run: "min g b \<le> min (good (snd (bisectLoop n e ?st))) (bad (snd (bisectLoop n e ?st))) \<and>
         max (good (snd (bisectLoop n e ?st))) (bad (snd (bisectLoop n e ?st))) \<le> max g b \<and>
         (\<forall>p. CanDownload p \<in> set (events (snd (bisectLoop n e ?st))) \<longrightarrow>
            min g b \<le> p \<and> p \<le> max g b)"
    by (rule bisectLoop_within)
  show ?thesis
    using findDownloadableRevision_within [OF assms, of fuel can] run
    unfolding bisect_def by blast
qed

theorem probes_and_result_within_bounds_witness:
  "min 9 1 \<le> (5::int) \<and> 5 \<le> max 9 (1::int) \<and>
   findDownloadableRevision 10 (\<lambda>r. r = 3) 5 9 1 = ([5, 4, 6, 3, 7], Some (Some 3)) \<and>
   min 9 1 \<le> (3::int) \<and> 3 \<le> max 9 (1::int) \<and>
   fst (bisect 50 \<lparr>canDownload = (\<lambda>r. r mod 3 = 0), downloadOk = (\<lambda>_. True),
          script = (\<lambda>r. if r < 20 then Exited 0 else Exited 1), isManual = False\<rparr>
          3 60 {21} []) = Finished \<and>
   min 3 60 \<le> min
     (good (snd (bisect 50 \<lparr>canDownload = (\<lambda>r. r mod 3 = 0), downloadOk = (\<lambda>_. True),
          script = (\<lambda>r. if r < 20 then Exited 0 else Exited 1), isManual = False\<rparr>
          3 60 {21} [])))
     (bad (snd (bisect 50 \<lparr>canDownload = (\<lambda>r. r mod 3 = 0), downloadOk = (\<lambda>_. True),
          script = (\<lambda>r. if r < 20 then Exited 0 else Exited 1), isManual = False\<rparr>
          3 60 {21} []))) \<and>
   max
     (good (snd (bisect 50 \<lparr>canDownload = (\<lambda>r. r mod 3 = 0), downloadOk = (\<lambda>_. True),
          script = (\<lambda>r. if r < 20 then Exited 0 else Exited 1), isManual = False\<rparr>
          3 60 {21} [])))
     (bad (snd (bisect 50 \<lparr>canDownload = (\<lambda>r. r mod 3 = 0), downloadOk = (\<lambda>_. True),
          script = (\<lambda>r. if r < 20 then Exited 0 else Exited 1), isManual = False\<rparr>
          3 60 {21} []))) \<le> max 3 60"
proof -
  have h1: "min 9 1 \<le> (5::int)" and h2: "5 \<le> max 9 (1::int)" by simp_all
  have found: "findDownloadableRevision 10 (\<lambda>r. r = 3) 5 9 1 = ([5, 4, 6, 3, 7], Some (Some 3))"
    by code_simp
  have finished: "fst (bisect 50 \<lparr>canDownload = (\<lambda>r. r mod 3 = 0), downloadOk = (\<lambda>_. True),
          script = (\<lambda>r. if r < 20 then Exited 0 else Exited 1), isManual = False\<rparr>
          3 60 {21} []) = Finished"
    by code_simp
  note inst = probes_and_result_within_bounds [OF h1 h2, where fuel = 10 and can = "\<lambda>r. r = 3"
        and g = 3 and b = 60 and n = 50 and onDisk = "{21}" and input = "[]" and e =
        "\<lparr>canDownload = (\<lambda>r. r mod 3 = 0), downloadOk = (\<lambda>_. True),
          script = (\<lambda>r. if r < 20 then Exited 0 else Exited 1), isManual = False\<rparr>"]
  have "min 9 1 \<le> (3::int) \<and> 3 \<le> max 9 (1::int)"
    using inst found by (simp only: snd_conv)
  then show ?thesis using h1 h2 found finished inst by blast
qed

text \<open>
  C4. Every completed iteration of the loop (the candidate is not \<open>null\<close>, not \<open>0\<close> and not
  an endpoint, it is downloaded and evaluated) strictly decreases \<open>|good - bad|\<close> and leaves
  \<open>good \<noteq> bad\<close>, whichever of the two is the larger.
\<close>

theorem completed_iteration_shrinks_span:
  assumes "fst (bisectRound fuel e st) = None"
  shows "\<bar>good (snd (bisectRound fuel e st)) - bad (snd (bisectRound fuel e st))\<bar>
           < \<bar>good st - bad st\<bar> \<and>
         good (snd (bisectRound fuel e st)) \<noteq> bad (snd (bisectRound fuel e st))"
proof -
  have "bisectRound fuel e st = (None, snd (bisectRound fuel e st))"
    using assms by (metis prod.collapse)
  then obtain r where "min (good st) (bad st) < r" "r < max (good st) (bad st)"
    "(good (snd (bisectRound fuel e st)) = r \<and> bad (snd (bisectRound fuel e st)) = bad st) \<or>
     (bad (snd (bisectRound fuel e st)) = r \<and> good (snd (bisectRound fuel e st)) = good st)"
    using bisectRound_completed by blast
  then show ?thesis by (auto simp: min_def max_def abs_if split: if_splits)
qed

theorem completed_iteration_shrinks_span_witness:
  "fst (bisectRound 10 \<lparr>canDownload = (\<lambda>r. r mod 3 = 0), downloadOk = (\<lambda>_. True),
          script = (\<lambda>r. if r < 20 then Exited 0 else Exited 1), isManual = False\<rparr>
        \<lparr>good = 60, bad = 3, localRevisions = {}, answers = [], events = []\<rparr>) = None \<and>
   \<bar>good (snd (bisectRound 10 \<lparr>canDownload = (\<lambda>r. r mod 3 = 0), downloadOk = (\<lambda>_. True),
          script = (\<lambda>r. if r < 20 then Exited 0 else Exited 1), isManual = False\<rparr>
        \<lparr>good = 60, bad = 3, localRevisions = {}, answers = [], events = []\<rparr>))
    - bad (snd (bisectRound 10 \<lparr>canDownload = (\<lambda>r. r mod 3 = 0), downloadOk = (\<lambda>_. True),
          script = (\<lambda>r. if r < 20 then Exited 0 else Exited 1), isManual = False\<rparr>
        \<lparr>good = 60, bad = 3, localRevisions = {}, answers = [], events = []\<rparr>))\<bar>
     < \<bar>60 - 3\<bar>"
proof -
  have h: "fst (bisectRound 10 \<lparr>canDownload = (\<lambda>r. r mod 3 = 0), downloadOk = (\<lambda>_. True),
          script = (\<lambda>r. if r < 20 then Exited 0 else Exited 1), isManual = False\<rparr>
        \<lparr>good = 60, bad = 3, localRevisions = {}, answers = [], events = []\<rparr>) = None"
    by code_simp
  show ?thesis using h completed_iteration_shrinks_span [OF h] by simp
qed

text \<open>
  C5. When the evaluation of a candidate has produced an exit code, the iteration sets
  \<open>bad\<close> to the candidate if the code is truthy (the bad outcome) and \<open>good\<close> to the
  candidate otherwise, leaving the other bound alone; and with the scripted evaluator a child
  that exits with code \<open>c\<close> gives the good outcome when \<open>c = 0\<close> and the bad outcome when
  \<open>c \<noteq> 0\<close>.
\<close>

theorem outcome_moves_the_matching_bound:
  assumes "revision \<in> localRevisions st \<or> downloadOk e revision"
    and "fst (evaluate e revision st) = Inr code"
  shows "fst (iteration e revision st) = None \<and>
         (if truthy code
          then bad (snd (iteration e revision st)) = revision \<and>
               good (snd (iteration e revision st)) = good st
          else good (snd (iteration e revision st)) = revision \<and>
               bad (snd (iteration e revision st)) = bad st) \<and>
         (\<forall>c. \<not> isManual e \<and> script e revision = Exited c \<longrightarrow>
               code = Code c \<and> (truthy code \<longleftrightarrow> c \<noteq> 0))"
proof -
  have scripted: "code = Code c \<and> (truthy code \<longleftrightarrow> c \<noteq> 0)"
    if "\<not> isManual e \<and> script e revision = Exited c" for c
  proof -
    have "fst (evaluate e revision st) = Inr (Code c)"
      using that by (simp add: evaluate_def)
    then have "code = Code c" using assms(2) by simp
    then show ?thesis by simp
  qed
  have bounds: "if truthy code
          then bad (snd (iteration e revision st)) = revision \<and>
               good (snd (iteration e revision st)) = good st
          else good (snd (iteration e revision st)) = revision \<and>
               bad (snd (iteration e revision st)) = bad st"
    using iteration_after_evaluation [OF assms] by (cases "truthy code") simp_all
  have "fst (iteration e revision st) = None"
    using iteration_after_evaluation [OF assms] by blast
  then show ?thesis using bounds scripted by blast
qed

theorem outcome_moves_the_matching_bound_witness:
  "fst (evaluate \<lparr>canDownload = (\<lambda>_. True), downloadOk = (\<lambda>_. True),
          script = (\<lambda>r. if r < 20 then Exited 0 else Exited 3), isManual = False\<rparr> 10
        \<lparr>good = 4, bad = 30, localRevisions = {}, answers = [], events = []\<rparr>) = Inr (Code 0) \<and>
   good (snd (iteration \<lparr>canDownload = (\<lambda>_. True), downloadOk = (\<lambda>_. True),
          script = (\<lambda>r. if r < 20 then Exited 0 else Exited 3), isManual = False\<rparr> 10
        \<lparr>good = 4, bad = 30, localRevisions = {}, answers = [], events = []\<rparr>)) = 10 \<and>
   bad (snd (iteration \<lparr>canDownload = (\<lambda>_. True), downloadOk = (\<lambda>_. True),
          script = (\<lambda>r. if r < 20 then Exited 0 else Exited 3), isManual = False\<rparr> 10
        \<lparr>good = 4, bad = 30, localRevisions = {}, answers = [], events = []\<rparr>)) = 30 \<and>
   fst (evaluate \<lparr>canDownload = (\<lambda>_. True), downloadOk = (\<lambda>_. True),
          script = (\<lambda>r. if r < 20 then Exited 0 else Exited 3), isManual = False\<rparr> 25
        \<lparr>good = 4, bad = 30, localRevisions = {}, answers = [], events = []\<rparr>) = Inr (Code 3) \<and>
   good (snd (iteration \<lparr>canDownload = (\<lambda>_. True), downloadOk = (\<lambda>_. True),
          script = (\<lambda>r. if r < 20 then Exited 0 else Exited 3), isManual = False\<rparr> 25
        \<lparr>good = 4, bad = 30, localRevisions = {}, answers = [], events = []\<rparr>)) = 4 \<and>
   bad (snd (iteration \<lparr>canDownload = (\<lambda>_. True), downloadOk = (\<lambda>_. True),
          script = (\<lambda>r. if r < 20 then Exited 0 else Exited 3), isManual = False\<rparr> 25
        \<lparr>good = 4, bad = 30, localRevisions = {}, answers = [], events = []\<rparr>)) = 25"
proof -
  let ?e = "\<lparr>canDownload = (\<lambda>_. True), downloadOk = (\<lambda>_. True),
          script = (\<lambda>r. if r < 20 then Exited 0 else Exited 3), isManual = False\<rparr>"
  let ?st = "\<lparr>good = 4, bad = 30, localRevisions = {}, answers = [], events = []\<rparr>"
  have d10: "10 \<in> localRevisions ?st \<or> downloadOk ?e 10"
    and d25: "25 \<in> localRevisions ?st \<or> downloadOk ?e 25" by simp_all
  have e10: "fst (evaluate ?e 10 ?st) = Inr (Code 0)"
    and e25: "fst (evaluate ?e 25 ?st) = Inr (Code 3)" by (simp_all add: evaluate_def)
  note at10 = outcome_moves_the_matching_bound [OF d10 e10, THEN conjunct2, THEN conjunct1]
  note at25 = outcome_moves_the_matching_bound [OF d25 e25, THEN conjunct2, THEN conjunct1]
  have r10: "good (snd (iteration ?e 10 ?st)) = 10 \<and> bad (snd (iteration ?e 10 ?st)) = 30"
    using at10 by simp
  have r25: "good (snd (iteration ?e 25 ?st)) = 4 \<and> bad (snd (iteration ?e 25 ?st)) = 25"
    using at25 by simp
  show ?thesis using e10 e25 r10 r25 by blast
qed

text \<open>
  C6. The claim is that in the interactive evaluator \<open>GOOD\<close>, \<open>g\<close> and \<open>yes\<close> give the
  good outcome, \<open>bad\<close>, \<open>n\<close> and \<open>no\<close> the bad outcome, and any other input asks again
  without touching the search state. The prompt of \<open>--manual\<close> mode accepts only
  \<open>g\<close>, \<open>good\<close>, \<open>b\<close> and \<open>bad\<close> (after trimming and lower-casing): there \<open>yes\<close>
  and \<open>no\<close> ask again, and the next line decides.
\<close>

theorem manual_prompt_rejects_yes_and_no:
  "manualPrompt [''yes'', ''b''] = (Code 1, []) \<and> manualPrompt [''no'', ''g''] = (Code 0, [])"
  by (simp add: toLowerCase_def trim_def isWhiteSpace_def)

text \<open>
  C6, as amended. In the prompt of \<open>--manual\<close> mode, \<open>GOOD\<close> and \<open>g\<close> give exit code 0 (good)
  and \<open>bad\<close> gives exit code 1 (bad), while \<open>yes\<close>, \<open>n\<close> and \<open>no\<close> ask again. In
  \<open>isGood\<close> of \<open>default.js\<close>, \<open>GOOD\<close>, \<open>g\<close> and \<open>yes\<close> give good, and \<open>bad\<close> and
  \<open>n\<close> give bad. In both, a line that is not accepted is dropped and the question is asked
  again: the evaluation goes on as if the line had not been typed, \<open>good\<close> and \<open>bad\<close> are
  untouched, and the iteration it belongs to is the same one.
\<close>

theorem interactive_answers:
  "fst (manualPrompt (''GOOD'' # rest)) = Code 0 \<and>
   fst (manualPrompt (''g'' # rest)) = Code 0 \<and>
   fst (manualPrompt (''bad'' # rest)) = Code 1 \<and>
   manualPrompt (''yes'' # rest) = manualPrompt rest \<and>
   manualPrompt (''n'' # rest) = manualPrompt rest \<and>
   manualPrompt (''no'' # rest) = manualPrompt rest \<and>
   isGood (''GOOD'' # rest) = (Some True, rest) \<and>
   isGood (''g'' # rest) = (Some True, rest) \<and>
   isGood (''yes'' # rest) = (Some True, rest) \<and>
   isGood (''bad'' # rest) = (Some False, rest) \<and>
   isGood (''n'' # rest) = (Some False, rest) \<and>
   (toLowerCase (trim line) \<notin> {''g'', ''good'', ''b'', ''bad''} \<longrightarrow>
      manualPrompt (line # rest) = manualPrompt rest \<and>
      (isManual e \<longrightarrow>
         evaluate e revision (st\<lparr>answers := line # rest\<rparr>)
           = evaluate e revision (st\<lparr>answers := rest\<rparr>) \<and>
         good (snd (evaluate e revision (st\<lparr>answers := line # rest\<rparr>))) = good st \<and>
         bad (snd (evaluate e revision (st\<lparr>answers := line # rest\<rparr>))) = bad st) \<and>
      (isManual e \<and> (revision \<in> localRevisions st \<or> downloadOk e revision) \<longrightarrow>
         iteration e revision (st\<lparr>answers := line # rest\<rparr>)
           = iteration e revision (st\<lparr>answers := rest\<rparr>))) \<and>
   (ask line \<notin> set goodAnswers \<union> set badAnswers \<longrightarrow>
      isGood (line # rest) = isGood rest)"
proof -
  have m: "fst (manualPrompt (''GOOD'' # rest)) = Code 0"
    "fst (manualPrompt (''g'' # rest)) = Code 0"
    "fst (manualPrompt (''bad'' # rest)) = Code 1"
    "manualPrompt (''yes'' # rest) = manualPrompt rest"
    "manualPrompt (''n'' # rest) = manualPrompt rest"
    "manualPrompt (''no'' # rest) = manualPrompt rest"
    by (simp_all add: toLowerCase_def trim_def isWhiteSpace_def)
  have g: "isGood (''GOOD'' # rest) = (Some True, rest)"
    "isGood (''g'' # rest) = (Some True, rest)"
    "isGood (''yes'' # rest) = (Some True, rest)"
    "isGood (''bad'' # rest) = (Some False, rest)"
    "isGood (''n'' # rest) = (Some False, rest)"
    by (simp_all add: ask_def toLowerCase_def goodAnswers_def badAnswers_def)
  have frame: "good (snd (evaluate e revision (st\<lparr>answers := line # rest\<rparr>))) = good st \<and>
         bad (snd (evaluate e revision (st\<lparr>answers := line # rest\<rparr>))) = bad st"
    using evaluate_frame [of e revision "st\<lparr>answers := line # rest\<rparr>"
        "fst (evaluate e revision (st\<lparr>answers := line # rest\<rparr>))"
        "snd (evaluate e revision (st\<lparr>answers := line # rest\<rparr>))"]
    by simp
  show ?thesis
    using m g frame manualPrompt_reprompt [of line rest] isGood_reprompt [of line rest]
      evaluate_reprompt [of line rest e revision st] iteration_reprompt [of line rest e revision st]
    by blast
qed

theorem interactive_answers_witness:
  "toLowerCase (trim ''Maybe '') \<notin> {''g'', ''good'', ''b'', ''bad''} \<and>
   manualPrompt [''Maybe '', '' Good''] = manualPrompt ['' Good''] \<and>
   manualPrompt ['' Good''] = (Code 0, []) \<and>
   iteration \<lparr>canDownload = (\<lambda>_. True), downloadOk = (\<lambda>_. True),
       script = (\<lambda>_. Exited 1), isManual = True\<rparr> 33
       (\<lparr>good = 3, bad = 60, localRevisions = {}, answers = [], events = []\<rparr>
          \<lparr>answers := [''Maybe '', '' Good'']\<rparr>)
     = iteration \<lparr>canDownload = (\<lambda>_. True), downloadOk = (\<lambda>_. True),
       script = (\<lambda>_. Exited 1), isManual = True\<rparr> 33
       (\<lparr>good = 3, bad = 60, localRevisions = {}, answers = [], events = []\<rparr>
          \<lparr>answers := ['' Good'']\<rparr>) \<and>
   ask ''Maybe '' \<notin> set goodAnswers \<union> set badAnswers \<and>
   isGood [''Maybe '', ''N''] = isGood [''N''] \<and>
   isGood [''N''] = (Some False, [])"
proof -
  let ?e = "\<lparr>canDownload = (\<lambda>_. True), downloadOk = (\<lambda>_. True),
       script = (\<lambda>_. Exited 1), isManual = True\<rparr>"
  let ?st = "\<lparr>good = 3, bad = 60, localRevisions = {}, answers = [], events = []\<rparr>"
  have h1: "toLowerCase (trim ''Maybe '') \<notin> {''g'', ''good'', ''b'', ''bad''}"
    by (simp add: toLowerCase_def trim_def isWhiteSpace_def)
  have h2: "ask ''Maybe '' \<notin> set goodAnswers \<union> set badAnswers"
    by (simp add: ask_def toLowerCase_def goodAnswers_def badAnswers_def)
  have h3: "isManual ?e \<and> (33 \<in> localRevisions ?st \<or> downloadOk ?e 33)" by simp
  have v1: "manualPrompt ['' Good''] = (Code 0, [])"
    by (simp add: toLowerCase_def trim_def isWhiteSpace_def)
  have v2: "isGood [''N''] = (Some False, [])"
    by (simp add: ask_def toLowerCase_def goodAnswers_def badAnswers_def)
  note manual = interactive_answers [where line = "''Maybe ''" and rest = "['' Good'']"
      and e = ?e and st = ?st and revision = 33]
  note scripted = interactive_answers [where line = "''Maybe ''" and rest = "[''N'']"]
  have "manualPrompt [''Maybe '', '' Good''] = manualPrompt ['' Good'']"
    using manual h1 by blast
  moreover have "iteration ?e 33 (?st\<lparr>answers := [''Maybe '', '' Good'']\<rparr>)
     = iteration ?e 33 (?st\<lparr>answers := ['' Good'']\<rparr>)"
    using manual h1 h3 by blast
  moreover have "isGood [''Maybe '', ''N''] = isGood [''N'']"
    using scripted h2 by blast
  ultimately show ?thesis using h1 h2 v1 v2 by blast
qed

text \<open>
  C7. The claim is that in every iteration the downloaded artifact is removed after the
  evaluation if and only if it was not on disk before the download. An iteration whose
  evaluation does not come back with an exit code removes nothing: when the script cannot be
  spawned for revision 33, which was not on disk, the revision is downloaded, the run stops,
  and the revision stays on disk.
\<close>

theorem fresh_download_is_left_when_script_cannot_start:
  "33 \<notin> localRevisions \<lparr>good = 3, bad = 60, localRevisions = {21}, answers = [], events = []\<rparr> \<and>
   fst (iteration \<lparr>canDownload = (\<lambda>r. r mod 3 = 0), downloadOk = (\<lambda>_. True),
          script = (\<lambda>_. SpawnError), isManual = False\<rparr> 33
        \<lparr>good = 3, bad = 60, localRevisions = {21}, answers = [], events = []\<rparr>)
     = Some ScriptRejected \<and>
   events (snd (iteration \<lparr>canDownload = (\<lambda>r. r mod 3 = 0), downloadOk = (\<lambda>_. True),
          script = (\<lambda>_. SpawnError), isManual = False\<rparr> 33
        \<lparr>good = 3, bad = 60, localRevisions = {21}, answers = [], events = []\<rparr>))
     = [Download 33] \<and>
   33 \<in> localRevisions (snd (iteration \<lparr>canDownload = (\<lambda>r. r mod 3 = 0),
          downloadOk = (\<lambda>_. True), script = (\<lambda>_. SpawnError), isManual = False\<rparr> 33
        \<lparr>good = 3, bad = 60, localRevisions = {21}, answers = [], events = []\<rparr>))"
  by (simp add: iteration_def downloadRevision_def evaluate_def Let_def)

text \<open>
  C7, as amended. An iteration runs to its end exactly when the candidate is on disk or its
  download succeeds and the evaluation comes back with an exit code. In such an iteration
  the candidate is downloaded, then evaluated, and then, after the evaluation, removed if
  and only if it was not on disk before the download; the revisions on disk are the same
  after the iteration as before. In an iteration that stops earlier (the download fails, the
  script cannot be spawned, the prompt is never answered) nothing is removed, and a revision
  downloaded in it stays on disk. In a whole run, however far it has got, every revision
  that was on disk at the start is still on disk and was never removed.
\<close>

theorem artifact_removed_after_evaluation_iff_fresh:
  "(fst (iteration e revision st) = None \<longleftrightarrow>
      (revision \<in> localRevisions st \<or> downloadOk e revision) \<and>
      (\<exists>code. fst (evaluate e revision st) = Inr code)) \<and>
   (case fst (iteration e revision st) of
      None \<Rightarrow>
        (\<exists>code. fst (evaluate e revision st) = Inr code \<and>
           events (snd (iteration e revision st)) =
             events st @ [Download revision, Evaluated revision code]
               @ (if revision \<in> localRevisions st then [] else [Remove revision])) \<and>
        localRevisions (snd (iteration e revision st)) = localRevisions st
    | Some reason \<Rightarrow>
        events (snd (iteration e revision st)) = events st @ [Download revision] \<and>
        localRevisions (snd (iteration e revision st)) =
          (if downloadOk e revision then insert revision (localRevisions st)
           else localRevisions st)) \<and>
   (\<forall>r \<in> onDisk.
      r \<in> localRevisions (snd (bisect fuel e g b onDisk input)) \<and>
      Remove r \<notin> set (events (snd (bisect fuel e g b onDisk input))))"
proof -
  let ?st = "\<lparr>good = g, bad = b, localRevisions = onDisk, answers = input, events = []\<rparr>"
  have "onDisk \<subseteq> localRevisions ?st" "\<forall>r \<in> onDisk. Remove r \<notin> set (events ?st)" by simp_all
  then have run: "onDisk \<subseteq> localRevisions (snd (bisectLoop fuel e ?st)) \<and>
         (\<forall>r \<in> onDisk. Remove r \<notin> set (events (snd (bisectLoop fuel e ?st))))"
    by (rule bisectLoop_keeps_local)
  have whole: "iteration e revision st = (fst (iteration e revision st), snd (iteration e revision st))"
    by simp
  have one: "case fst (iteration e revision st) of
      None \<Rightarrow>
        (\<exists>code. fst (evaluate e revision st) = Inr code \<and>
           events (snd (iteration e revision st)) =
             events st @ [Download revision, Evaluated revision code]
               @ (if revision \<in> localRevisions st then [] else [Remove revision])) \<and>
        localRevisions (snd (iteration e revision st)) = localRevisions st
    | Some reason \<Rightarrow>
        events (snd (iteration e revision st)) = events st @ [Download revision] \<and>
        localRevisions (snd (iteration e revision st)) =
          (if downloadOk e revision then insert revision (localRevisions st)
           else localRevisions st)"
  proof (cases "fst (iteration e revision st)")
    case None
    then have "iteration e revision st = (None, snd (iteration e revision st))"
      using whole by simp
    then show ?thesis
      using iteration_completed [of e revision st "snd (iteration e revision st)"] None
      by simp
  next
    case (Some reason)
    then have "iteration e revision st = (Some reason, snd (iteration e revision st))"
      using whole by simp
    then show ?thesis
      using iteration_stopped [of e revision st reason "snd (iteration e revision st)"] Some
      by simp
  qed
  show ?thesis
    using iteration_completes_iff [of e revision st] one run unfolding bisect_def by blast
qed

theorem artifact_removed_after_evaluation_iff_fresh_witness:
  "fst (iteration \<lparr>canDownload = (\<lambda>r. r mod 3 = 0), downloadOk = (\<lambda>_. True),
          script = (\<lambda>r. if r < 20 then Exited 0 else Exited 1), isManual = False\<rparr> 21
        \<lparr>good = 3, bad = 60, localRevisions = {21}, answers = [], events = []\<rparr>) = None \<and>
   events (snd (iteration \<lparr>canDownload = (\<lambda>r. r mod 3 = 0), downloadOk = (\<lambda>_. True),
          script = (\<lambda>r. if r < 20 then Exited 0 else Exited 1), isManual = False\<rparr> 21
        \<lparr>good = 3, bad = 60, localRevisions = {21}, answers = [], events = []\<rparr>))
     = [Download 21, Evaluated 21 (Code 1)] \<and>
   fst (iteration \<lparr>canDownload = (\<lambda>r. r mod 3 = 0), downloadOk = (\<lambda>_. True),
          script = (\<lambda>r. if r < 20 then Exited 0 else Exited 1), isManual = False\<rparr> 33
        \<lparr>good = 3, bad = 60, localRevisions = {21}, answers = [], events = []\<rparr>) = None \<and>
   events (snd (iteration \<lparr>canDownload = (\<lambda>r. r mod 3 = 0), downloadOk = (\<lambda>_. True),
          script = (\<lambda>r. if r < 20 then Exited 0 else Exited 1), isManual = False\<rparr> 33
        \<lparr>good = 3, bad = 60, localRevisions = {21}, answers = [], events = []\<rparr>))
     = [Download 33, Evaluated 33 (Code 1), Remove 33] \<and>
   localRevisions (snd (iteration \<lparr>canDownload = (\<lambda>r. r mod 3 = 0), downloadOk = (\<lambda>_. True),
          script = (\<lambda>r. if r < 20 then Exited 0 else Exited 1), isManual = False\<rparr> 33
        \<lparr>good = 3, bad = 60, localRevisions = {21}, answers = [], events = []\<rparr>)) = {21} \<and>
   fst (bisect 50 \<lparr>canDownload = (\<lambda>r. r mod 3 = 0), downloadOk = (\<lambda>_. True),
          script = (\<lambda>r. if r < 20 then Exited 0 else Exited 1), isManual = False\<rparr>
          3 60 {21} []) = Finished \<and>
   21 \<in> localRevisions (snd (bisect 50 \<lparr>canDownload = (\<lambda>r. r mod 3 = 0),
          downloadOk = (\<lambda>_. True),
          script = (\<lambda>r. if r < 20 then Exited 0 else Exited 1), isManual = False\<rparr>
          3 60 {21} [])) \<and>
   Remove 21 \<notin> set (events (snd (bisect 50 \<lparr>canDownload = (\<lambda>r. r mod 3 = 0),
          downloadOk = (\<lambda>_. True),
          script = (\<lambda>r. if r < 20 then Exited 0 else Exited 1), isManual = False\<rparr>
          3 60 {21} [])))"
proof -
  let ?e = "\<lparr>canDownload = (\<lambda>r. r mod 3 = 0), downloadOk = (\<lambda>_. True),
          script = (\<lambda>r. if r < 20 then Exited 0 else Exited 1), isManual = False\<rparr>"
  let ?st = "\<lparr>good = 3, bad = 60, localRevisions = {21}, answers = [], events = []\<rparr>"
  have c21: "fst (iteration ?e 21 ?st) = None" and c33: "fst (iteration ?e 33 ?st) = None"
    by code_simp+
  have e21: "fst (evaluate ?e 21 ?st) = Inr (Code 1)"
    and e33: "fst (evaluate ?e 33 ?st) = Inr (Code 1)"
    by (simp_all add: evaluate_def)
  have finished: "fst (bisect 50 ?e 3 60 {21} []) = Finished" by code_simp
  note at21 = artifact_removed_after_evaluation_iff_fresh
      [where e = ?e and revision = 21 and st = ?st, THEN conjunct2, THEN conjunct1]
  note at33 = artifact_removed_after_evaluation_iff_fresh
      [where e = ?e and revision = 33 and st = ?st, THEN conjunct2, THEN conjunct1]
  note run = artifact_removed_after_evaluation_iff_fresh
      [where e = ?e and onDisk = "{21}" and fuel = 50 and g = 3 and b = 60 and input = "[]",
       THEN conjunct2, THEN conjunct2]
  have "\<exists>code. fst (evaluate ?e 21 ?st) = Inr code \<and>
      events (snd (iteration ?e 21 ?st)) = [] @ [Download 21, Evaluated 21 code] @ []"
    using at21 unfolding c21 by simp
  then have r21: "events (snd (iteration ?e 21 ?st)) = [Download 21, Evaluated 21 (Code 1)]"
    unfolding e21 by auto
  have "(\<exists>code. fst (evaluate ?e 33 ?st) = Inr code \<and>
      events (snd (iteration ?e 33 ?st)) = [] @ [Download 33, Evaluated 33 code] @ [Remove 33])
      \<and> localRevisions (snd (iteration ?e 33 ?st)) = {21}"
    using at33 unfolding c33 by simp
  then have r33: "events (snd (iteration ?e 33 ?st)) = [Download 33, Evaluated 33 (Code 1), Remove 33] \<and>
        localRevisions (snd (iteration ?e 33 ?st)) = {21}"
    unfolding e33 by auto
  have kept: "21 \<in> localRevisions (snd (bisect 50 ?e 3 60 {21} [])) \<and>
        Remove 21 \<notin> set (events (snd (bisect 50 ?e 3 60 {21} [])))"
    using run by blast
  show ?thesis using c21 c33 finished r21 r33 kept by blast
qed

text \<open>
  C8. The claim is that calling \<open>close\<close> twice gives no error and that the second call does
  not attempt a second kill. No call gives an error. The second call, however, issues the
  kill command again when no \<open>exit\<close> event has been handled since the first: the guard
  \<open>chromeProcess.pid && !chromeProcess.killed && !chromeClosed\<close> is there to skip a kill
  already sent, but the launcher kills with \<open>process.kill(-pid)\<close> or \<open>taskkill\<close>, which
  never set \<open>chromeProcess.killed\<close>, so the guard still passes. After \<open>launch\<close> on a host
  that is not Windows, with pid 4242, two calls in a row issue two kill commands.
\<close>

theorem second_close_kills_again:
  "kills (snd (performAll [Close, Close]
     (launch \<lparr>ignoreDefaultArgs = IgnoreBool False, args = [], userDataDir = None,
               devtools = False, handleSIGINT = True, handleSIGTERM = True,
               handleSIGHUP = True\<rparr>
             \<lparr>win32 = False, tmpdir = ''/tmp'', mkdtempSuffix = ''AbCdEf'',
               spawnedPid = Some 4242\<rparr> {})))
   = [KillGroup 4242, KillGroup 4242]"
  by code_simp

text \<open>
  C9. When the child of the scripted evaluator is ended by a signal, \<open>runScript\<close> resolves
  with \<open>null\<close>, and the engine takes that as the good outcome: the iteration completes with
  \<open>good\<close> set to the candidate and \<open>bad\<close> unchanged.
\<close>

theorem signalled_child_counts_as_good:
  assumes "\<not> isManual e" and "script e revision = Signalled"
    and "revision \<in> localRevisions st \<or> downloadOk e revision"
  shows "runScript (script e revision) = Inr Null \<and>
         fst (evaluate e revision st) = Inr Null \<and>
         fst (iteration e revision st) = None \<and>
         good (snd (iteration e revision st)) = revision \<and>
         bad (snd (iteration e revision st)) = bad st"
proof -
  have ev: "fst (evaluate e revision st) = Inr Null"
    using assms(1,2) by (simp add: evaluate_def)
  have "runScript (script e revision) = Inr Null" using assms(2) by simp
  moreover have "fst (iteration e revision st) = None \<and>
         good (snd (iteration e revision st)) = revision \<and>
         bad (snd (iteration e revision st)) = bad st"
    using iteration_after_evaluation [OF assms(3) ev] by simp
  ultimately show ?thesis using ev by blast
qed

theorem signalled_child_counts_as_good_witness:
  "\<not> isManual \<lparr>canDownload = (\<lambda>_. True), downloadOk = (\<lambda>_. True),
          script = (\<lambda>_. Signalled), isManual = False\<rparr> \<and>
   script \<lparr>canDownload = (\<lambda>_. True), downloadOk = (\<lambda>_. True),
          script = (\<lambda>_. Signalled), isManual = False\<rparr> 590000 = Signalled \<and>
   fst (iteration \<lparr>canDownload = (\<lambda>_. True), downloadOk = (\<lambda>_. True),
          script = (\<lambda>_. Signalled), isManual = False\<rparr> 590000
        \<lparr>good = 577361, bad = 599821, localRevisions = {}, answers = [], events = []\<rparr>) = None \<and>
   good (snd (iteration \<lparr>canDownload = (\<lambda>_. True), downloadOk = (\<lambda>_. True),
          script = (\<lambda>_. Signalled), isManual = False\<rparr> 590000
        \<lparr>good = 577361, bad = 599821, localRevisions = {}, answers = [], events = []\<rparr>)) = 590000 \<and>
   bad (snd (iteration \<lparr>canDownload = (\<lambda>_. True), downloadOk = (\<lambda>_. True),
          script = (\<lambda>_. Signalled), isManual = False\<rparr> 590000
        \<lparr>good = 577361, bad = 599821, localRevisions = {}, answers = [], events = []\<rparr>)) = 599821"
proof -
  let ?e = "\<lparr>canDownload = (\<lambda>_. True), downloadOk = (\<lambda>_. True),
          script = (\<lambda>_. Signalled), isManual = False\<rparr>"
  let ?st = "\<lparr>good = 577361, bad = 599821, localRevisions = {}, answers = [], events = []\<rparr>"
  have h1: "\<not> isManual ?e" and h2: "script ?e 590000 = Signalled"
    and h3: "590000 \<in> localRevisions ?st \<or> downloadOk ?e 590000" by simp_all
  note inst = signalled_child_counts_as_good [OF h1 h2 h3, THEN conjunct2, THEN conjunct2]
  have "bad (snd (iteration ?e 590000 ?st)) = 599821"
    using inst by simp
  then show ?thesis using h1 h2 inst by blast
qed

text \<open>
  C10. When the arguments the launcher is about to pass to the browser (the caller's own,
  after \<open>ignoreDefaultArgs\<close> has been applied) already hold one that starts with
  \<open>--user-data-dir\<close>, \<open>launch\<close> creates no temporary profile directory:
  \<open>temporaryUserDataDir\<close> stays \<open>null\<close> and no directory is added. The removal step of
  \<open>killChrome\<close> is then handed \<open>null\<close>, throws, and the error is swallowed; whatever calls
  of \<open>close\<close> and \<open>exit\<close> events follow, no directory is removed and none raises an error.
  Whatever the options of a launch, the only directory ever removed is the temporary profile
  the launcher created.
\<close>

theorem supplied_profile_directory_is_never_removed:
  assumes "list_ex (\<lambda>arg. startsWith arg ''--user-data-dir'') (initialArguments options)"
  shows "temporaryUserDataDir (launch options h existing) = None \<and>
         dirs (launch options h existing) = existing \<and>
         fst (removeFolderSync (temporaryUserDataDir (launch options h existing))
                (launch options h existing)) = Some MissingPath \<and>
         fst (killChrome (launch options h existing)) = None \<and>
         dirs (snd (killChrome (launch options h existing))) = existing \<and>
         removals (snd (killChrome (launch options h existing))) = [] \<and>
         fst (performAll acts (launch options h existing)) = None \<and>
         dirs (snd (performAll acts (launch options h existing))) = existing \<and>
         removals (snd (performAll acts (launch options h existing))) = [] \<and>
         set (removals (snd (performAll acts (launch options' h existing))))
           \<subseteq> {CHROME_PROFILE_PATH h @ mkdtempSuffix h}"
proof -
  let ?c = "launch options h existing"
  have l: "temporaryUserDataDir ?c = None" "dirs ?c = existing" "removals ?c = []"
    using launch_with_profile_argument [OF assms, of h existing] by simp_all
  have swallowed: "fst (removeFolderSync (temporaryUserDataDir ?c) ?c) = Some MissingPath"
    by (simp only: l(1)) (simp add: removeFolderSync_def)
  have k: "dirs (snd (killChrome ?c)) = existing \<and> removals (snd (killChrome ?c)) = []"
    using perform_without_profile [OF l(1), of Close] l(2,3)
    by (simp add: gracefullyCloseChrome_def)
  have all: "dirs (snd (performAll acts ?c)) = existing \<and> removals (snd (performAll acts ?c)) = []"
    using performAll_without_profile [OF l(1), of acts] l(2,3) by simp
  have only: "set (removals (snd (performAll acts (launch options' h existing))))
           \<subseteq> {CHROME_PROFILE_PATH h @ mkdtempSuffix h}"
    using performAll_removes_only_profile [of acts "launch options' h existing"]
      launch_profile [of options' h existing]
    by auto
  show ?thesis
    using l(1,2) swallowed k all killChrome_no_error [of ?c] performAll_no_error [of acts ?c] only
    by blast
qed

theorem supplied_profile_directory_is_never_removed_witness:
  "list_ex (\<lambda>arg. startsWith arg ''--user-data-dir'')
     (initialArguments \<lparr>ignoreDefaultArgs = IgnoreBool False,
        args = [''--user-data-dir=/home/me/profile''], userDataDir = None,
        devtools = False, handleSIGINT = True, handleSIGTERM = True, handleSIGHUP = True\<rparr>) \<and>
   temporaryUserDataDir (launch \<lparr>ignoreDefaultArgs = IgnoreBool False,
        args = [''--user-data-dir=/home/me/profile''], userDataDir = None,
        devtools = False, handleSIGINT = True, handleSIGTERM = True, handleSIGHUP = True\<rparr>
      \<lparr>win32 = False, tmpdir = ''/tmp'', mkdtempSuffix = ''AbCdEf'', spawnedPid = Some 4242\<rparr>
      {''/home/me/profile''}) = None \<and>
   fst (performAll [Close, ExitEvent, Close] (launch \<lparr>ignoreDefaultArgs = IgnoreBool False,
        args = [''--user-data-dir=/home/me/profile''], userDataDir = None,
        devtools = False, handleSIGINT = True, handleSIGTERM = True, handleSIGHUP = True\<rparr>
      \<lparr>win32 = False, tmpdir = ''/tmp'', mkdtempSuffix = ''AbCdEf'', spawnedPid = Some 4242\<rparr>
      {''/home/me/profile''})) = None \<and>
   dirs (snd (performAll [Close, ExitEvent, Close] (launch \<lparr>ignoreDefaultArgs = IgnoreBool False,
        args = [''--user-data-dir=/home/me/profile''], userDataDir = None,
        devtools = False, handleSIGINT = True, handleSIGTERM = True, handleSIGHUP = True\<rparr>
      \<lparr>win32 = False, tmpdir = ''/tmp'', mkdtempSuffix = ''AbCdEf'', spawnedPid = Some 4242\<rparr>
      {''/home/me/profile''}))) = {''/home/me/profile''} \<and>
   removals (snd (performAll [Close, ExitEvent, Close] (launch \<lparr>ignoreDefaultArgs = IgnoreBool False,
        args = [''--user-data-dir=/home/me/profile''], userDataDir = None,
        devtools = False, handleSIGINT = True, handleSIGTERM = True, handleSIGHUP = True\<rparr>
      \<lparr>win32 = False, tmpdir = ''/tmp'', mkdtempSuffix = ''AbCdEf'', spawnedPid = Some 4242\<rparr>
      {''/home/me/profile''}))) = []"
proof -
  let ?options = "\<lparr>ignoreDefaultArgs = IgnoreBool False,
        args = [''--user-data-dir=/home/me/profile''], userDataDir = None,
        devtools = False, handleSIGINT = True, handleSIGTERM = True, handleSIGHUP = True\<rparr>"
  have h: "list_ex (\<lambda>arg. startsWith arg ''--user-data-dir'') (initialArguments ?options)"
    by (simp add: defaultArgs_def startsWith_def)
  show ?thesis
    using h supplied_profile_directory_is_never_removed [OF h,
        where acts = "[Close, ExitEvent, Close]" and existing = "{''/home/me/profile''}"
        and h = "\<lparr>win32 = False, tmpdir = ''/tmp'', mkdtempSuffix = ''AbCdEf'',
                   spawnedPid = Some 4242\<rparr>"]
    by blast
qed

end
